theory Spec2Isabelle
  imports Main "HOL-Library.Char_ord" "HOL-Library.List_Lexorder"
begin

section \<open>Python string operations used by the archiver\<close>

text \<open>
  Strings are lists of characters; a character stands for a code point below 256.
  The functions below follow the Python string methods that
  \<^verbatim>\<open>WebsiteArchiver\<close> calls.
\<close>

definition startswith :: "string \<Rightarrow> string \<Rightarrow> bool" where
  \<comment> \<open>\<^verbatim>\<open>s.startswith(p)\<close>\<close>
  "startswith s p = (take (length p) s = p)"

definition endswith :: "string \<Rightarrow> string \<Rightarrow> bool" where
  \<comment> \<open>\<^verbatim>\<open>s.endswith(suf)\<close>\<close>
  "endswith s suf = (length suf \<le> length s \<and> drop (length s - length suf) s = suf)"

definition strip_char :: "char \<Rightarrow> string \<Rightarrow> string" where
  \<comment> \<open>\<^verbatim>\<open>s.strip(c)\<close> for a one-character argument\<close>
  "strip_char c s = rev (dropWhile (\<lambda>x. x = c) (rev (dropWhile (\<lambda>x. x = c) s)))"

function str_replace :: "string \<Rightarrow> string \<Rightarrow> string \<Rightarrow> string" where
  \<comment> \<open>\<^verbatim>\<open>s.replace(old, new)\<close> for a non-empty \<open>old\<close>: leftmost, non-overlapping\<close>
  "str_replace old new [] = []"
| "str_replace old new (c # cs) =
     (if old \<noteq> [] \<and> startswith (c # cs) old
      then new @ str_replace old new (drop (length old) (c # cs))
      else c # str_replace old new cs)"
  by pat_completeness auto
termination
  by (relation "measure (\<lambda>(old, new, s). length s)") (auto simp: startswith_def)

definition contains :: "string \<Rightarrow> string \<Rightarrow> bool" where
  \<comment> \<open>\<^verbatim>\<open>sub in s\<close>\<close>
  "contains sub s = (\<exists>i \<in> set [0 ..< Suc (length s)]. startswith (drop i s) sub)"

section \<open>File names derived from URL paths\<close>

text \<open>
  \<^verbatim>\<open>snapshot\<close> (and, with the same three lines, \<^verbatim>\<open>_archive_page\<close>):
  \<^verbatim>\<open>
    path = parsed.path.strip('/') or 'index'
    if not path.endswith('.html'):
        path = path.replace('/', '_') + '.html'
  \<close>
  The argument is \<^verbatim>\<open>urlparse(url).path\<close>.
\<close>

definition page_filename :: "string \<Rightarrow> string" where
  "page_filename url_path =
     (let p = strip_char CHR ''/'' url_path;
          path = (if p = [] then ''index'' else p)
      in if \<not> endswith path ''.html''
         then str_replace ''/'' ''_'' path @ ''.html''
         else path)"

definition original_filename :: "string \<Rightarrow> string" where
  \<comment> \<open>\<^verbatim>\<open>path.replace('.html', '_original.html')\<close>\<close>
  "original_filename path = str_replace ''.html'' ''_original.html'' path"

section \<open>The external libraries\<close>

text \<open>
  The archiver calls \<^verbatim>\<open>hashlib\<close>, \<^verbatim>\<open>urllib.parse\<close>, \<^verbatim>\<open>requests\<close> and the
  \<^verbatim>\<open>BeautifulSoup\<close> parser. They are not part of the repository, so they are taken as
  parameters, collected in one record:
  \<^item> \<open>sha256_hexdigest\<close>: \<^verbatim>\<open>hashlib.sha256(content).hexdigest()\<close>;
  \<^item> \<open>urlparse_path\<close>: \<^verbatim>\<open>urlparse(url).path\<close>;
  \<^item> \<open>urljoin\<close>: \<^verbatim>\<open>urljoin(base, ref)\<close>;
  \<^item> \<open>get_content\<close>: \<^verbatim>\<open>requests.get(url, ...)\<close> followed by \<^verbatim>\<open>raise_for_status()\<close> and
    \<^verbatim>\<open>response.content\<close>; \<open>None\<close> when any of them raises;
  \<^item> \<open>get_text\<close>: the same with \<^verbatim>\<open>response.text\<close>; \<open>Inl\<close> carries the text of the
    exception;
  \<^item> \<open>html_parser\<close>: \<^verbatim>\<open>BeautifulSoup(html, 'html.parser')\<close>, the parsed tree.
  Within one run a URL is taken to answer the same way each time it is requested.
\<close>

datatype node =
    Text string
  | Comment string
  | Doctype string
  | Element string "(string \<times> string) list" "node list"

text \<open>
  An element carries its name, its attributes in document order (the parser keeps one value
  per attribute name, \<open>None\<close> values becoming the empty string) and its children. The value
  of a multi-valued attribute (\<^verbatim>\<open>class\<close>, \<^verbatim>\<open>rel\<close>, ...) is kept as written; the parser's
  list of its whitespace-separated parts is taken where it is used.
\<close>

record lib =
  sha256_hexdigest :: "string \<Rightarrow> string"
  urlparse_path :: "string \<Rightarrow> string"
  urljoin :: "string \<Rightarrow> string \<Rightarrow> string"
  get_content :: "string \<Rightarrow> string option"
  get_text :: "string \<Rightarrow> string + string"
  html_parser :: "string \<Rightarrow> node list"

section \<open>The archiver's state\<close>

datatype py_error = KeyError string | FileNotFoundError string

datatype request = PageRequest string | AssetRequest string

record page_record =
  pr_url :: string
  pr_status :: string
  pr_file :: "string option"
  pr_original_file :: "string option"
  pr_assets :: "string list"
  pr_error :: "string option"

record manifest =
  m_timestamp :: string
  m_base_url :: string
  m_pages :: "page_record list"

text \<open>
  A snapshot directory holds its HTML files and \<^verbatim>\<open>CHANGES.txt\<close> by name, and
  \<^verbatim>\<open>manifest.json\<close>, kept here as the value that \<^verbatim>\<open>json.load\<close> gives back.
\<close>

record snapshot_dir =
  sd_files :: "(string \<times> string) list"
  sd_manifest :: "manifest option"

text \<open>
  The state of a \<^verbatim>\<open>WebsiteArchiver\<close> and of its output directory:
  \<^item> \<open>asset_cache\<close>: \<^verbatim>\<open>self.asset_cache\<close>, from content hash to relative path;
  \<^item> \<open>cache_file\<close>: \<^verbatim>\<open>assets/asset_cache.json\<close>, \<open>None\<close> while it does not exist;
  \<^item> \<open>asset_files\<close>: the files under the output directory that \<^verbatim>\<open>_save_asset\<close> writes,
    by relative path;
  \<^item> \<open>snapshots\<close>: the directories under \<^verbatim>\<open>self.snapshots_dir\<close>, by name, in the order
    \<^verbatim>\<open>iterdir()\<close> lists them;
  \<^item> \<open>debug_files\<close>: the files under \<^verbatim>\<open>debug_comparison\<close>;
  \<^item> \<open>requests\<close>: the HTTP requests made so far, oldest first.
\<close>

record archiver =
  base_url :: string
  output_dir :: string
  domain :: string
  asset_cache :: "(string \<times> string) list"
  cache_file :: "(string \<times> string) list option"
  asset_files :: "(string \<times> string) list"
  snapshots :: "(string \<times> snapshot_dir) list"
  debug_files :: "(string \<times> string) list"
  requests :: "request list"

text \<open>
  Dictionaries and directories are association lists with one entry per key:
  \<open>map_of\<close> reads, \<open>dict_set\<close> writes (replacing the value of a key that is present,
  appending a new key).
\<close>

fun dict_set :: "'k \<Rightarrow> 'v \<Rightarrow> ('k \<times> 'v) list \<Rightarrow> ('k \<times> 'v) list" where
  "dict_set k v [] = [(k, v)]"
| "dict_set k v ((k', v') # kvs) =
     (if k' = k then (k, v) # kvs else (k', v') # dict_set k v kvs)"

section \<open>The asset store\<close>

definition get_file_hash :: "lib \<Rightarrow> string \<Rightarrow> string" where
  \<comment> \<open>\<^verbatim>\<open>hashlib.sha256(content).hexdigest()[:16]\<close>\<close>
  "get_file_hash L content = take 16 (sha256_hexdigest L content)"

definition splitext_ext :: "string \<Rightarrow> string" where
  \<comment> \<open>\<^verbatim>\<open>os.path.splitext(p)[1]\<close> (POSIX): from the last dot of the last path component,
      unless only dots precede it there\<close>
  "splitext_ext p =
     (let name = rev (takeWhile (\<lambda>c. c \<noteq> CHR ''/'') (rev p));
          tail = rev (takeWhile (\<lambda>c. c \<noteq> CHR ''.'') (rev name));
          stem = take (length name - length tail - 1) name
      in if CHR ''.'' \<in> set name \<and> (\<exists>c \<in> set stem. c \<noteq> CHR ''.'')
         then CHR ''.'' # tail else [])"

definition asset_type_of :: "string \<Rightarrow> string" where
  "asset_type_of ext =
     (if ext \<in> set [''.jpg'', ''.jpeg'', ''.png'', ''.gif'', ''.svg'', ''.webp'', ''.ico'']
        then ''images''
      else if ext \<in> set [''.css''] then ''css''
      else if ext \<in> set [''.js''] then ''js''
      else if ext \<in> set [''.woff'', ''.woff2'', ''.ttf'', ''.eot''] then ''fonts''
      else ''other'')"

definition download_asset :: "lib \<Rightarrow> string \<Rightarrow> archiver \<Rightarrow> string option \<times> archiver" where
  \<comment> \<open>\<^verbatim>\<open>_download_asset\<close>: every exception is caught and turned into \<open>None\<close>\<close>
  "download_asset L url st =
     (get_content L url, st\<lparr>requests := requests st @ [AssetRequest url]\<rparr>)"

definition save_asset :: "lib \<Rightarrow> string \<Rightarrow> string \<Rightarrow> archiver \<Rightarrow> string \<times> archiver" where
  "save_asset L url content st =
     (let content_hash = get_file_hash L content
      in case map_of (asset_cache st) content_hash of
           Some cached \<Rightarrow> (cached, st)
         | None \<Rightarrow>
             (let e = splitext_ext (urlparse_path L url);
                  ext = (if e = [] then ''.bin'' else e);
                  asset_type = asset_type_of ext;
                  filename = content_hash @ ext;
                  relative_path = ''assets/'' @ asset_type @ ''/'' @ filename;
                  cache' = dict_set content_hash relative_path (asset_cache st)
              in (relative_path,
                  st\<lparr>asset_files := dict_set relative_path content (asset_files st),
                     asset_cache := cache',
                     cache_file := Some cache'\<rparr>)))"

section \<open>Walking the parsed tree\<close>

text \<open>
  \<^verbatim>\<open>for tag in soup.find_all(...)\<close> visits the matching elements in document order and
  the loop bodies only read and assign attributes of the visited tag. \<open>map_tags f\<close> is that
  loop: \<open>f\<close> gets the name and the attributes of every element, parent before children,
  and a state that it threads through; it returns the new attributes.
\<close>

fun map_tags :: "(string \<Rightarrow> (string \<times> string) list \<Rightarrow> 's \<Rightarrow> (string \<times> string) list \<times> 's)
                  \<Rightarrow> node \<Rightarrow> 's \<Rightarrow> node \<times> 's"
  and map_tags_list :: "(string \<Rightarrow> (string \<times> string) list \<Rightarrow> 's \<Rightarrow> (string \<times> string) list \<times> 's)
                  \<Rightarrow> node list \<Rightarrow> 's \<Rightarrow> node list \<times> 's" where
  "map_tags f (Text t) s = (Text t, s)"
| "map_tags f (Comment t) s = (Comment t, s)"
| "map_tags f (Doctype t) s = (Doctype t, s)"
| "map_tags f (Element name attrs children) s =
     (case f name attrs s of (attrs', s1) \<Rightarrow>
        (case map_tags_list f children s1 of (children', s2) \<Rightarrow>
           (Element name attrs' children', s2)))"
| "map_tags_list f [] s = ([], s)"
| "map_tags_list f (x # xs) s =
     (case map_tags f x s of (x', s1) \<Rightarrow>
        (case map_tags_list f xs s1 of (xs', s2) \<Rightarrow> (x' # xs', s2)))"

definition is_space :: "char \<Rightarrow> bool" where
  \<comment> \<open>\<^verbatim>\<open>str.isspace\<close> and the regular expression class \<^verbatim>\<open>\s\<close>, below code point 256\<close>
  "is_space c = (c \<in> set [CHR 0x09, CHR 0x0A, CHR 0x0B, CHR 0x0C, CHR 0x0D,
                           CHR 0x1C, CHR 0x1D, CHR 0x1E, CHR 0x1F, CHR 0x20, CHR 0x85, CHR 0xA0])"

function split_ws :: "string \<Rightarrow> string list" where
  \<comment> \<open>\<^verbatim>\<open>s.split()\<close>: the maximal runs of characters that are not whitespace\<close>
  "split_ws s =
     (let s' = dropWhile is_space s
      in if s' = [] then []
         else takeWhile (\<lambda>c. \<not> is_space c) s' # split_ws (dropWhile (\<lambda>c. \<not> is_space c) s'))"
  by pat_completeness auto
termination
proof (relation "measure length", goal_cases)
  case 1
  show ?case by simp
next
  case (2 s s')
  then obtain c cs where s': "dropWhile is_space s = c # cs"
    by (cases "dropWhile is_space s") auto
  then have "\<not> is_space c"
    using hd_dropWhile [of is_space s] by auto
  then have "length (dropWhile (\<lambda>c. \<not> is_space c) (c # cs)) \<le> length cs"
    by (simp add: length_dropWhile_le)
  moreover have "length (c # cs) \<le> length s"
    using s' length_dropWhile_le [of is_space s] by simp
  ultimately show ?case using 2 s' by simp
qed

declare split_ws.simps [simp del]

fun join_sp :: "string list \<Rightarrow> string" where
  \<comment> \<open>\<^verbatim>\<open>' '.join(ws)\<close>\<close>
  "join_sp [] = []"
| "join_sp [w] = w"
| "join_sp (w # v # ws) = w @ CHR '' '' # join_sp (v # ws)"

definition attr_get :: "(string \<times> string) list \<Rightarrow> string \<Rightarrow> string option" where
  \<comment> \<open>\<^verbatim>\<open>tag.get(key)\<close>\<close>
  "attr_get attrs key = map_of attrs key"

definition has_rel_stylesheet :: "(string \<times> string) list \<Rightarrow> bool" where
  \<comment> \<open>the filter \<^verbatim>\<open>rel='stylesheet'\<close> of \<^verbatim>\<open>find_all\<close>: one of the values of the
      multi-valued attribute is \<^verbatim>\<open>stylesheet\<close>\<close>
  "has_rel_stylesheet attrs =
     (case attr_get attrs ''rel'' of None \<Rightarrow> False | Some v \<Rightarrow> ''stylesheet'' \<in> set (split_ws v))"

section \<open>The page rewriter\<close>

text \<open>
  The body shared by the three loops of \<^verbatim>\<open>_rewrite_html\<close>:
  \<^verbatim>\<open>
    asset_url = urljoin(page_url, tag[key])
    content = self._download_asset(asset_url)
    if content:
        local_path = self._save_asset(asset_url, content)
        tag[key] = f"../../{local_path}"
        assets_used.append(local_path)
  \<close>
  The state is the list \<^verbatim>\<open>assets_used\<close> and the archiver. An empty download is falsy,
  as \<open>None\<close> is.
\<close>

definition localise_ref :: "lib \<Rightarrow> string \<Rightarrow> string \<Rightarrow> string \<Rightarrow> (string \<times> string) list
    \<Rightarrow> string list \<times> archiver \<Rightarrow> (string \<times> string) list \<times> string list \<times> archiver" where
  "localise_ref L page_url key ref attrs s =
     (case s of (assets_used, st) \<Rightarrow>
        (let asset_url = urljoin L page_url ref
         in case download_asset L asset_url st of (content, st1) \<Rightarrow>
              (case content of
                 None \<Rightarrow> (attrs, assets_used, st1)
               | Some bytes \<Rightarrow>
                   if bytes = [] then (attrs, assets_used, st1)
                   else (case save_asset L asset_url bytes st1 of (local_path, st2) \<Rightarrow>
                           (dict_set key (''../../'' @ local_path) attrs,
                            assets_used @ [local_path], st2)))))"

definition rewrite_img :: "lib \<Rightarrow> string \<Rightarrow> string \<Rightarrow> (string \<times> string) list
    \<Rightarrow> string list \<times> archiver \<Rightarrow> (string \<times> string) list \<times> string list \<times> archiver" where
  \<comment> \<open>\<^verbatim>\<open>for tag in soup.find_all('img'): if tag.get('src'): ...\<close>\<close>
  "rewrite_img L page_url name attrs s =
     (if name = ''img'' then
        (case attr_get attrs ''src'' of
           None \<Rightarrow> (attrs, s)
         | Some ref \<Rightarrow> if ref = [] then (attrs, s) else localise_ref L page_url ''src'' ref attrs s)
      else (attrs, s))"

definition rewrite_link :: "lib \<Rightarrow> string \<Rightarrow> string \<Rightarrow> (string \<times> string) list
    \<Rightarrow> string list \<times> archiver \<Rightarrow> (string \<times> string) list \<times> string list \<times> archiver" where
  \<comment> \<open>\<^verbatim>\<open>for tag in soup.find_all('link', rel='stylesheet'): if tag.get('href'): ...\<close>\<close>
  "rewrite_link L page_url name attrs s =
     (if name = ''link'' \<and> has_rel_stylesheet attrs then
        (case attr_get attrs ''href'' of
           None \<Rightarrow> (attrs, s)
         | Some ref \<Rightarrow> if ref = [] then (attrs, s) else localise_ref L page_url ''href'' ref attrs s)
      else (attrs, s))"

definition rewrite_script :: "lib \<Rightarrow> string \<Rightarrow> string \<Rightarrow> (string \<times> string) list
    \<Rightarrow> string list \<times> archiver \<Rightarrow> (string \<times> string) list \<times> string list \<times> archiver" where
  \<comment> \<open>\<^verbatim>\<open>for tag in soup.find_all('script', src=True): ...\<close>, an empty \<^verbatim>\<open>src\<close> included\<close>
  "rewrite_script L page_url name attrs s =
     (if name = ''script'' then
        (case attr_get attrs ''src'' of
           None \<Rightarrow> (attrs, s)
         | Some ref \<Rightarrow> localise_ref L page_url ''src'' ref attrs s)
      else (attrs, s))"

definition rewrite_soup :: "lib \<Rightarrow> string \<Rightarrow> node list \<Rightarrow> archiver
    \<Rightarrow> node list \<times> string list \<times> archiver" where
  \<comment> \<open>the loops of \<^verbatim>\<open>_rewrite_html\<close>, in their order: images, style sheets, scripts; the
      loop over inline styles only logs a warning\<close>
  "rewrite_soup L page_url soup st =
     (case map_tags_list (rewrite_img L page_url) soup ([], st) of (soup1, s1) \<Rightarrow>
        (case map_tags_list (rewrite_link L page_url) soup1 s1 of (soup2, s2) \<Rightarrow>
           (case map_tags_list (rewrite_script L page_url) soup2 s2 of (soup3, assets_used, st') \<Rightarrow>
              (soup3, assets_used, st'))))"

section \<open>Serialising the tree\<close>

text \<open>
  \<^verbatim>\<open>str(soup)\<close> with the parser's default formatter: text and attribute values have
  \<^verbatim>\<open>&\<close>, \<^verbatim>\<open><\<close> and \<^verbatim>\<open>>\<close> replaced by entities, except the text of \<^verbatim>\<open>script\<close> and
  \<^verbatim>\<open>style\<close> elements; attribute values are written in double quotes, or in single quotes
  when they hold a double quote and no single quote; a void element without children is
  written \<^verbatim>\<open><name .../>\<close>. The attributes of a tag are written sorted by name
  (\<^verbatim>\<open>Formatter.attributes\<close> returns \<^verbatim>\<open>sorted(tag.attrs.items())\<close>), whatever their order in
  the document.
\<close>

fun escape_xml :: "string \<Rightarrow> string" where
  "escape_xml [] = []"
| "escape_xml (c # cs) =
     (if c = CHR ''&'' then ''&amp;'' @ escape_xml cs
      else if c = CHR ''<'' then ''&lt;'' @ escape_xml cs
      else if c = CHR ''>'' then ''&gt;'' @ escape_xml cs
      else c # escape_xml cs)"

definition quoted_attribute_value :: "string \<Rightarrow> string" where
  "quoted_attribute_value v =
     (if CHR 0x22 \<in> set v then
        (if CHR 0x27 \<in> set v
         then [CHR 0x22] @ str_replace [CHR 0x22] ''&quot;'' v @ [CHR 0x22]
         else [CHR 0x27] @ v @ [CHR 0x27])
      else [CHR 0x22] @ v @ [CHR 0x22])"

definition void_elements :: "string list" where
  "void_elements =
     [''area'', ''base'', ''br'', ''col'', ''embed'', ''hr'', ''img'', ''input'', ''keygen'',
      ''link'', ''menuitem'', ''meta'', ''param'', ''source'', ''track'', ''wbr'',
      ''basefont'', ''bgsound'', ''command'', ''frame'', ''image'', ''isindex'', ''nextid'',
      ''spacer'']"

definition multi_valued :: "string \<Rightarrow> string \<Rightarrow> bool" where
  "multi_valued name key =
     (key \<in> set [''class'', ''accesskey'', ''dropzone'']
      \<or> (name, key) \<in> set [(''a'', ''rel''), (''a'', ''rev''), (''link'', ''rel''), (''link'', ''rev''),
            (''td'', ''headers''), (''th'', ''headers''), (''form'', ''accept-charset''),
            (''object'', ''archive''), (''area'', ''rel''), (''icon'', ''sizes''),
            (''iframe'', ''sandbox''), (''output'', ''for'')])"

fun render_attrs :: "string \<Rightarrow> (string \<times> string) list \<Rightarrow> string" where
  "render_attrs name [] = []"
| "render_attrs name ((key, v) # attrs) =
     '' '' @ key @ ''='' @
       quoted_attribute_value (escape_xml (if multi_valued name key then join_sp (split_ws v) else v))
       @ render_attrs name attrs"

definition sorted_attrs :: "(string \<times> string) list \<Rightarrow> (string \<times> string) list" where
  \<comment> \<open>\<^verbatim>\<open>sorted(tag.attrs.items())\<close>: the keys of a dictionary are distinct, so the pairs are
      ordered by their keys, which are compared by code points\<close>
  "sorted_attrs attrs = sort_key fst attrs"

fun render_node :: "bool \<Rightarrow> node \<Rightarrow> string"
  and render_nodes :: "bool \<Rightarrow> node list \<Rightarrow> string" where
  "render_node raw (Text t) = (if raw then t else escape_xml t)"
| "render_node raw (Comment t) = ''<!--'' @ t @ ''-->''"
| "render_node raw (Doctype t) = ''<!DOCTYPE '' @ t @ ''>'' @ [CHR 0x0A]"
| "render_node raw (Element name attrs children) =
     (if children = [] \<and> name \<in> set void_elements
      then ''<'' @ name @ render_attrs name (sorted_attrs attrs) @ ''/>''
      else ''<'' @ name @ render_attrs name (sorted_attrs attrs) @ ''>''
           @ render_nodes (name \<in> set [''script'', ''style'']) children
           @ ''</'' @ name @ ''>'')"
| "render_nodes raw [] = []"
| "render_nodes raw (x # xs) = render_node raw x @ render_nodes raw xs"

definition soup_str :: "node list \<Rightarrow> string" where
  \<comment> \<open>\<^verbatim>\<open>str(soup)\<close>\<close>
  "soup_str soup = render_nodes False soup"

definition rewrite_html :: "lib \<Rightarrow> string \<Rightarrow> string \<Rightarrow> archiver \<Rightarrow> string \<times> string list \<times> archiver" where
  "rewrite_html L html page_url st =
     (case rewrite_soup L page_url (html_parser L html) st of (soup', assets_used, st') \<Rightarrow>
        (soup_str soup', assets_used, st'))"

section \<open>Regular expressions\<close>

text \<open>
  \<^verbatim>\<open>re.sub(pattern, repl, text)\<close> replaces the non-overlapping matches from left to right.
  A pattern is given as a function that, for the text from a position on, returns the
  length of the match starting there, if there is one. None of the patterns of
  \<^verbatim>\<open>_normalize_html_for_comparison\<close> matches the empty string or looks behind the position.
\<close>

function re_sub :: "(string \<Rightarrow> nat option) \<Rightarrow> string \<Rightarrow> string \<Rightarrow> string" where
  "re_sub m repl [] = []"
| "re_sub m repl (c # cs) =
     (case m (c # cs) of
        Some (Suc n) \<Rightarrow> repl @ re_sub m repl (drop n cs)
      | _ \<Rightarrow> c # re_sub m repl cs)"
  by pat_completeness auto
termination
  by (relation "measure (\<lambda>(m, repl, s). length s)") auto

definition lit_run :: "string \<Rightarrow> (char \<Rightarrow> bool) \<Rightarrow> string \<Rightarrow> nat option" where
  \<comment> \<open>a literal followed by \<^verbatim>\<open>[...]+\<close>, greedy, with nothing after it\<close>
  "lit_run lit cls s =
     (let run = takeWhile cls (drop (length lit) s)
      in if startswith s lit \<and> run \<noteq> [] then Some (length lit + length run) else None)"

definition lit_run_close :: "string \<Rightarrow> (char \<Rightarrow> bool) \<Rightarrow> char \<Rightarrow> string \<Rightarrow> nat option" where
  \<comment> \<open>a literal, \<^verbatim>\<open>[...]+\<close> and a closing character outside the class: the greedy run
      is the only one that the closing character can follow\<close>
  "lit_run_close lit cls close s =
     (let rest = drop (length lit) s; run = takeWhile cls rest
      in if startswith s lit \<and> run \<noteq> [] \<and> startswith (drop (length run) rest) [close]
         then Some (length lit + length run + 1) else None)"

definition url_char :: "char \<Rightarrow> bool" where
  \<comment> \<open>the class \<^verbatim>\<open>[^"'>\s]\<close>\<close>
  "url_char c = (c \<noteq> CHR 0x22 \<and> c \<noteq> CHR 0x27 \<and> c \<noteq> CHR ''>'' \<and> \<not> is_space c)"

definition is_digit :: "char \<Rightarrow> bool" where
  \<comment> \<open>the class \<^verbatim>\<open>\d\<close>, below code point 256\<close>
  "is_digit c = (c \<in> set ''0123456789'')"

definition is_hex :: "char \<Rightarrow> bool" where
  \<comment> \<open>the class \<^verbatim>\<open>[a-f0-9]\<close>\<close>
  "is_hex c = (c \<in> set ''abcdef0123456789'')"

definition is_b64 :: "char \<Rightarrow> bool" where
  \<comment> \<open>the class \<^verbatim>\<open>[A-Za-z0-9+/=]\<close>\<close>
  "is_b64 c = (c \<in> set ''ABCDEFGHIJKLMNOPQRSTUVWXYZabcdefghijklmnopqrstuvwxyz0123456789+/='')"

definition lower :: "char \<Rightarrow> char" where
  \<comment> \<open>the lower-case form of an ASCII letter\<close>
  "lower c = (case map_of (zip ''ABCDEFGHIJKLMNOPQRSTUVWXYZ'' ''abcdefghijklmnopqrstuvwxyz'') c of
                Some l \<Rightarrow> l | None \<Rightarrow> c)"

definition istartswith :: "string \<Rightarrow> string \<Rightarrow> bool" where
  \<comment> \<open>a lower-case literal at the start of \<open>s\<close> under \<^verbatim>\<open>re.IGNORECASE\<close>\<close>
  "istartswith s lit = (map lower (take (length lit) s) = lit)"

section \<open>The content normaliser\<close>

definition strip_tracking :: "string \<Rightarrow> string" where
  \<comment> \<open>the four substitutions applied to an \<^verbatim>\<open>href\<close> or \<^verbatim>\<open>src\<close> value, in their order\<close>
  "strip_tracking v =
     re_sub (lit_run ''&_ga='' url_char) []
       (re_sub (lit_run ''?_ga='' url_char) []
         (re_sub (lit_run ''&_gl='' url_char) []
           (re_sub (lit_run ''?_gl='' url_char) [] v)))"

definition strip_href :: "string \<Rightarrow> (string \<times> string) list \<Rightarrow> unit \<Rightarrow> (string \<times> string) list \<times> unit" where
  \<comment> \<open>\<^verbatim>\<open>for tag in soup.find_all(['a', 'link', 'script', 'img'], href=True)\<close>\<close>
  "strip_href name attrs u =
     (if name \<in> set [''a'', ''link'', ''script'', ''img''] then
        (case attr_get attrs ''href'' of
           None \<Rightarrow> (attrs, u)
         | Some href \<Rightarrow> (dict_set ''href'' (strip_tracking href) attrs, u))
      else (attrs, u))"

definition strip_src :: "string \<Rightarrow> (string \<times> string) list \<Rightarrow> unit \<Rightarrow> (string \<times> string) list \<times> unit" where
  \<comment> \<open>\<^verbatim>\<open>for tag in soup.find_all(['img', 'script'], src=True)\<close>\<close>
  "strip_src name attrs u =
     (if name \<in> set [''img'', ''script''] then
        (case attr_get attrs ''src'' of
           None \<Rightarrow> (attrs, u)
         | Some src \<Rightarrow> (dict_set ''src'' (strip_tracking src) attrs, u))
      else (attrs, u))"

definition strip_tracking_soup :: "node list \<Rightarrow> node list" where
  "strip_tracking_soup soup =
     fst (map_tags_list strip_src (fst (map_tags_list strip_href soup ())) ())"

definition plural :: "string \<Rightarrow> string \<Rightarrow> nat option" where
  \<comment> \<open>an alternative \<^verbatim>\<open>units?\<close> of the time pattern: the unit, then an \<^verbatim>\<open>s\<close> if one follows\<close>
  "plural unit s =
     (if istartswith s unit
      then Some (if istartswith (drop (length unit) s) ''s'' then length unit + 1 else length unit)
      else None)"

fun first_match :: "(string \<Rightarrow> nat option) list \<Rightarrow> string \<Rightarrow> nat option" where
  \<comment> \<open>an alternation \<^verbatim>\<open>(a|b|...)\<close> whose continuation cannot fail: the first alternative
      that matches is taken\<close>
  "first_match [] s = None"
| "first_match (m # ms) s = (case m s of Some n \<Rightarrow> Some n | None \<Rightarrow> first_match ms s)"

definition time_unit :: "string \<Rightarrow> nat option" where
  \<comment> \<open>\<^verbatim>\<open>(h\.|hours?|mins?|minutes?|days?|weeks?|months?)\<close>\<close>
  "time_unit =
     first_match [(\<lambda>s. if istartswith s ''h.'' then Some 2 else None),
                  plural ''hour'', plural ''min'', plural ''minute'', plural ''day'',
                  plural ''week'', plural ''month'']"

definition time_match :: "string \<Rightarrow> nat option" where
  \<comment> \<open>\<^verbatim>\<open>\d+\s*(h\.|hours?|mins?|minutes?|days?|weeks?|months?)\s*(ago)?\.?\<close> with
      \<^verbatim>\<open>re.IGNORECASE\<close>. The digits and the whitespace are the longest runs, since a
      shorter one is followed by a digit or by whitespace, where no unit starts; the three
      parts after the unit are optional and greedy.\<close>
  "time_match s =
     (let digits = takeWhile is_digit s;
          r1 = dropWhile is_space (drop (length digits) s)
      in if digits = [] then None
         else (case time_unit r1 of
                 None \<Rightarrow> None
               | Some n \<Rightarrow>
                   (let r2 = dropWhile is_space (drop n r1);
                        r3 = (if istartswith r2 ''ago'' then drop 3 r2 else r2);
                        r4 = (if startswith r3 ''.'' then drop 1 r3 else r3)
                    in Some (length s - length r4))))"

definition fb_pixel_match :: "string \<Rightarrow> nat option" where
  \<comment> \<open>\<^verbatim>\<open><img[^>]*facebook\.com/tr[^>]*>\<close>: the tag runs to the first \<^verbatim>\<open>>\<close> and the
      marker stands before it\<close>
  "fb_pixel_match s =
     (let rest = drop 4 s; seg = takeWhile (\<lambda>c. c \<noteq> CHR ''>'') rest
      in if startswith s ''<img'' \<and> length seg < length rest \<and> contains ''facebook.com/tr'' seg
         then Some (4 + length seg + 1) else None)"

definition normalize_ws :: "string \<Rightarrow> string" where
  \<comment> \<open>\<^verbatim>\<open>' '.join(text.split())\<close>\<close>
  "normalize_ws text = join_sp (split_ws text)"

definition normalize_text :: "string \<Rightarrow> string" where
  \<comment> \<open>the substitutions on \<^verbatim>\<open>str(soup)\<close>, in their order\<close>
  "normalize_text text0 =
     (let text1 = re_sub (lit_run_close ''window.__CF$cv$params={'' (\<lambda>c. c \<noteq> CHR ''}'') CHR ''}'')
                    ''window.__CF$cv$params={[REMOVED]}'' text0;
          text2 = re_sub (lit_run_close (''r:'' @ [CHR 0x27]) is_hex (CHR 0x27))
                    (''r:'' @ [CHR 0x27] @ ''[REMOVED]'' @ [CHR 0x27]) text1;
          text3 = re_sub (lit_run_close (''t:'' @ [CHR 0x27]) is_b64 (CHR 0x27))
                    (''t:'' @ [CHR 0x27] @ ''[REMOVED]'' @ [CHR 0x27]) text2;
          text4 = re_sub time_match ''[TIME]'' text3;
          text5 = re_sub fb_pixel_match [] text4
      in normalize_ws text5)"

definition normalize_html_for_comparison :: "lib \<Rightarrow> string \<Rightarrow> string" where
  "normalize_html_for_comparison L html =
     normalize_text (soup_str (strip_tracking_soup (html_parser L html)))"

section \<open>The change detector\<close>

text \<open>
  A page of the batch that \<^verbatim>\<open>snapshot\<close> fetches: the dictionary with the keys
  \<^verbatim>\<open>url\<close>, \<^verbatim>\<open>html\<close> and \<^verbatim>\<open>status: 'success'\<close>, or with \<^verbatim>\<open>url\<close>, \<^verbatim>\<open>error\<close> and
  \<^verbatim>\<open>status: 'failed'\<close>.
\<close>

datatype temp_page = Success string string | Failed string string

fun temp_url :: "temp_page \<Rightarrow> string" where
  "temp_url (Success url html) = url"
| "temp_url (Failed url err) = url"

text \<open>
  The three readings of the clock in a run: the name of the snapshot
  (\<^verbatim>\<open>%Y-%m-%d_%H-%M-%S\<close>), the tag of the debug files (\<^verbatim>\<open>%Y%m%d_%H%M%S\<close>) and the date in
  the change summary.
\<close>

record clock =
  timestamp :: string
  debug_stamp :: string
  summary_date :: string

definition get_most_recent_snapshot :: "archiver \<Rightarrow> (string \<times> snapshot_dir) option" where
  \<comment> \<open>\<^verbatim>\<open>sorted([d for d in self.snapshots_dir.iterdir() if d.is_dir()])[-1]\<close>, or \<open>None\<close>\<close>
  "get_most_recent_snapshot st =
     (case sort_key fst (snapshots st) of [] \<Rightarrow> None | d # ds \<Rightarrow> Some (last (d # ds)))"

definition find_prev_page :: "manifest \<Rightarrow> string \<Rightarrow> page_record option" where
  \<comment> \<open>the first record of the manifest with this URL and status \<^verbatim>\<open>success\<close>\<close>
  "find_prev_page previous_manifest url =
     find (\<lambda>p. pr_url p = url \<and> pr_status p = ''success'') (m_pages previous_manifest)"

definition prev_html_name :: "page_record \<Rightarrow> py_error + string" where
  \<comment> \<open>\<^verbatim>\<open>prev_page['original_file']\<close> if the key is there, else \<^verbatim>\<open>prev_page['file']\<close>\<close>
  "prev_html_name prev_page =
     (case pr_original_file prev_page of
        Some f \<Rightarrow> Inr f
      | None \<Rightarrow> (case pr_file prev_page of Some f \<Rightarrow> Inr f | None \<Rightarrow> Inl (KeyError ''file'')))"

fun compare_pages :: "lib \<Rightarrow> clock \<Rightarrow> snapshot_dir \<Rightarrow> manifest \<Rightarrow> temp_page list \<Rightarrow> archiver
    \<Rightarrow> py_error + bool \<times> archiver" where
  \<comment> \<open>the loop \<^verbatim>\<open>for temp_page in temp_pages\<close> of \<^verbatim>\<open>_has_content_changed_from_temp\<close>\<close>
  "compare_pages L clk previous_snapshot previous_manifest [] st = Inr (False, st)"
| "compare_pages L clk previous_snapshot previous_manifest (Failed url err # temp_pages) st =
     compare_pages L clk previous_snapshot previous_manifest temp_pages st"
| "compare_pages L clk previous_snapshot previous_manifest (Success url html # temp_pages) st =
     (case find_prev_page previous_manifest url of
        None \<Rightarrow> Inr (True, st)
      | Some prev_page \<Rightarrow>
          (case prev_html_name prev_page of
             Inl e \<Rightarrow> Inl e
           | Inr prev_html_file \<Rightarrow>
               (case map_of (sd_files previous_snapshot) prev_html_file of
                  None \<Rightarrow>
                    (case pr_file prev_page of
                       None \<Rightarrow> Inl (KeyError ''file'')
                     | Some f \<Rightarrow> Inr (True, st))
                | Some prev_html \<Rightarrow>
                    (let curr_normalized = normalize_html_for_comparison L html;
                         prev_normalized = normalize_html_for_comparison L prev_html
                     in if curr_normalized \<noteq> prev_normalized
                        then Inr (True,
                               st\<lparr>debug_files :=
                                    dict_set (''previous_'' @ debug_stamp clk @ ''.txt'') prev_normalized
                                      (dict_set (''current_'' @ debug_stamp clk @ ''.txt'') curr_normalized
                                         (debug_files st))\<rparr>)
                        else compare_pages L clk previous_snapshot previous_manifest temp_pages st))))"

definition has_content_changed_from_temp :: "lib \<Rightarrow> clock \<Rightarrow> temp_page list \<Rightarrow> archiver
    \<Rightarrow> py_error + bool \<times> archiver" where
  "has_content_changed_from_temp L clk temp_pages st =
     (case get_most_recent_snapshot st of
        None \<Rightarrow> Inr (True, st)
      | Some (name, previous_snapshot) \<Rightarrow>
          (case sd_manifest previous_snapshot of
             None \<Rightarrow> Inr (True, st)
           | Some previous_manifest \<Rightarrow>
               if length temp_pages \<noteq> length (m_pages previous_manifest) then Inr (True, st)
               else compare_pages L clk previous_snapshot previous_manifest temp_pages st))"

section \<open>The change summary\<close>

text \<open>
  The two lines of an entry that format numbers (\<^verbatim>\<open>{n:,}\<close> and \<^verbatim>\<open>{x:.1f}\<close>, the latter
  of a floating-point quotient) are taken as given: they get the lengths of the previous
  and of the current normalised text. The thresholds \<^verbatim>\<open>* 1.1\<close> and \<^verbatim>\<open>* 0.9\<close> are
  compared in integers.
\<close>

record formats =
  length_line :: "nat \<Rightarrow> nat \<Rightarrow> string"
  percent_line :: "nat \<Rightarrow> nat \<Rightarrow> string"

function show_nat :: "nat \<Rightarrow> string" where
  \<comment> \<open>\<^verbatim>\<open>str(n)\<close>\<close>
  "show_nat n =
     (if n < 10 then [''0123456789'' ! n] else show_nat (n div 10) @ [''0123456789'' ! (n mod 10)])"
  by pat_completeness auto
termination
  by (relation "measure id") auto

declare show_nat.simps [simp del]

fun str_join :: "string \<Rightarrow> string list \<Rightarrow> string" where
  \<comment> \<open>\<^verbatim>\<open>sep.join(xs)\<close>\<close>
  "str_join sep [] = []"
| "str_join sep [x] = x"
| "str_join sep (x # y # xs) = x @ sep @ str_join sep (y # xs)"

definition change_type :: "nat \<Rightarrow> nat \<Rightarrow> string" where
  "change_type curr_len prev_len =
     (if 10 * curr_len > 11 * prev_len then ''  Type: Significant content addition''
      else if 10 * curr_len < 9 * prev_len then ''  Type: Significant content removal''
      else ''  Type: Content modification'')"

fun summary_pages :: "lib \<Rightarrow> formats \<Rightarrow> snapshot_dir \<Rightarrow> manifest \<Rightarrow> temp_page list
    \<Rightarrow> py_error + string list \<times> bool" where
  \<comment> \<open>the loop of \<^verbatim>\<open>_generate_change_summary\<close>: the lines it appends and
      \<^verbatim>\<open>changes_found\<close>\<close>
  "summary_pages L F previous_snapshot previous_manifest [] = Inr ([], False)"
| "summary_pages L F previous_snapshot previous_manifest (Failed url err # temp_pages) =
     summary_pages L F previous_snapshot previous_manifest temp_pages"
| "summary_pages L F previous_snapshot previous_manifest (Success url html # temp_pages) =
     (case find_prev_page previous_manifest url of
        None \<Rightarrow>
          (case summary_pages L F previous_snapshot previous_manifest temp_pages of
             Inl e \<Rightarrow> Inl e
           | Inr (ls, found) \<Rightarrow> Inr ([''NEW PAGE ADDED:'', ''  URL: '' @ url, []] @ ls, True))
      | Some prev_page \<Rightarrow>
          (case prev_html_name prev_page of
             Inl e \<Rightarrow> Inl e
           | Inr prev_html_file \<Rightarrow>
               (case map_of (sd_files previous_snapshot) prev_html_file of
                  None \<Rightarrow> summary_pages L F previous_snapshot previous_manifest temp_pages
                | Some prev_html \<Rightarrow>
                    (let curr_normalized = normalize_html_for_comparison L html;
                         prev_normalized = normalize_html_for_comparison L prev_html
                     in if curr_normalized \<noteq> prev_normalized
                        then (case summary_pages L F previous_snapshot previous_manifest temp_pages of
                                Inl e \<Rightarrow> Inl e
                              | Inr (ls, found) \<Rightarrow>
                                  Inr ([''CHANGES DETECTED:'', ''  Page: '' @ url,
                                        length_line F (length prev_normalized) (length curr_normalized),
                                        percent_line F (length prev_normalized) (length curr_normalized),
                                        change_type (length curr_normalized) (length prev_normalized),
                                        []] @ ls, True))
                        else summary_pages L F previous_snapshot previous_manifest temp_pages))))"

definition write_file :: "string \<Rightarrow> string \<Rightarrow> string \<Rightarrow> archiver \<Rightarrow> archiver" where
  \<comment> \<open>write a file of the snapshot directory \<open>name\<close>\<close>
  "write_file name file content st =
     st\<lparr>snapshots :=
          map (\<lambda>(n, d). if n = name then (n, d\<lparr>sd_files := dict_set file content (sd_files d)\<rparr>)
                         else (n, d)) (snapshots st)\<rparr>"

definition write_manifest :: "string \<Rightarrow> manifest \<Rightarrow> archiver \<Rightarrow> archiver" where
  "write_manifest name m st =
     st\<lparr>snapshots :=
          map (\<lambda>(n, d). if n = name then (n, d\<lparr>sd_manifest := Some m\<rparr>) else (n, d))
            (snapshots st)\<rparr>"

definition read_file :: "archiver \<Rightarrow> string \<Rightarrow> string \<Rightarrow> string option" where
  \<comment> \<open>the content of a file of the snapshot directory \<open>name\<close>\<close>
  "read_file st name file =
     (case map_of (snapshots st) name of None \<Rightarrow> None | Some d \<Rightarrow> map_of (sd_files d) file)"

definition snapshot_path :: "archiver \<Rightarrow> string \<Rightarrow> string" where
  \<comment> \<open>\<^verbatim>\<open>str(self.snapshots_dir / name)\<close>\<close>
  "snapshot_path st name = output_dir st @ ''/'' @ domain st @ ''/'' @ name"

definition summary_body :: "lib \<Rightarrow> formats \<Rightarrow> temp_page list \<Rightarrow> archiver \<Rightarrow> py_error + string list" where
  \<comment> \<open>the lines between the header and the footer\<close>
  "summary_body L F temp_pages st =
     (case get_most_recent_snapshot st of
        None \<Rightarrow>
          Inr [''INITIAL SNAPSHOT - No previous version to compare'',
               ''Archived '' @ show_nat (length temp_pages) @ '' pages'']
      | Some (name, previous_snapshot) \<Rightarrow>
          (case sd_manifest previous_snapshot of
             None \<Rightarrow>
               Inr [''Compared to: '' @ name, [],
                    ''Previous snapshot incomplete - treating as changed'']
           | Some previous_manifest \<Rightarrow>
               (case summary_pages L F previous_snapshot previous_manifest temp_pages of
                  Inl e \<Rightarrow> Inl e
                | Inr (ls, changes_found) \<Rightarrow>
                    Inr ([''Compared to: '' @ name, []] @ ls @
                         (if \<not> changes_found
                          then [''NO CHANGES DETECTED'',
                                ''All monitored pages remain identical to previous snapshot'']
                          else [])))))"

definition generate_change_summary :: "lib \<Rightarrow> formats \<Rightarrow> clock \<Rightarrow> string \<Rightarrow> temp_page list
    \<Rightarrow> archiver \<Rightarrow> py_error + string \<times> archiver" where
  \<comment> \<open>\<open>name\<close> is the name of the directory \<^verbatim>\<open>snapshot_dir\<close>\<close>
  "generate_change_summary L F clk name temp_pages st =
     (case summary_body L F temp_pages st of
        Inl e \<Rightarrow> Inl e
      | Inr body \<Rightarrow>
          (let summary_lines =
                 [replicate 70 CHR ''='', ''WEBSITE CHANGE SUMMARY'',
                  ''Snapshot Date: '' @ summary_date clk, ''Website: '' @ base_url st,
                  replicate 70 CHR ''='', []]
                 @ body @
                 [[], replicate 70 CHR ''='',
                  ''Pages monitored: '' @ show_nat (length temp_pages),
                  ''Snapshot stored at: '' @ snapshot_path st name,
                  replicate 70 CHR ''=''];
               text = str_join [CHR 0x0A] summary_lines
           in Inr (text, write_file name ''CHANGES.txt'' text st)))"

section \<open>The snapshot builder\<close>

definition fetch_page :: "lib \<Rightarrow> string \<Rightarrow> string \<Rightarrow> temp_page" where
  \<comment> \<open>the body of the first loop of \<^verbatim>\<open>snapshot\<close>\<close>
  "fetch_page L base page =
     (let page_url = (if \<not> startswith page ''http'' then urljoin L base page else page)
      in case get_text L page_url of
           Inr html \<Rightarrow> Success page_url html
         | Inl err \<Rightarrow> Failed page_url err)"

definition fetch_pages :: "lib \<Rightarrow> string list option \<Rightarrow> archiver \<Rightarrow> temp_page list" where
  \<comment> \<open>the first loop of \<^verbatim>\<open>snapshot\<close>: \<^verbatim>\<open>temp_pages\<close>; without a list of pages, the base
      URL alone is fetched\<close>
  "fetch_pages L pages st =
     map (fetch_page L (base_url st)) (case pages of None \<Rightarrow> [base_url st] | Some ps \<Rightarrow> ps)"

fun build_pages :: "lib \<Rightarrow> string \<Rightarrow> temp_page list \<Rightarrow> archiver
    \<Rightarrow> py_error + page_record list \<times> archiver" where
  \<comment> \<open>the second loop of \<^verbatim>\<open>snapshot\<close>: the records of \<^verbatim>\<open>manifest['pages']\<close>. Opening a
      file whose name has a slash fails, as no directory is made below the snapshot's.\<close>
  "build_pages L name [] st = Inr ([], st)"
| "build_pages L name (Failed url err # temp_pages) st =
     (case build_pages L name temp_pages st of
        Inl e \<Rightarrow> Inl e
      | Inr (records, st') \<Rightarrow>
          Inr (\<lparr>pr_url = url, pr_status = ''failed'', pr_file = None, pr_original_file = None,
                pr_assets = [], pr_error = Some err\<rparr> # records, st'))"
| "build_pages L name (Success url html # temp_pages) st =
     (case rewrite_html L html url st of (rewritten_html, assets_used, st1) \<Rightarrow>
        (let path = page_filename (urlparse_path L url)
         in if CHR ''/'' \<in> set path then Inl (FileNotFoundError path)
            else (let st2 = write_file name path rewritten_html st1;
                      original_file = original_filename path;
                      st3 = write_file name original_file html st2
                  in case build_pages L name temp_pages st3 of
                       Inl e \<Rightarrow> Inl e
                     | Inr (records, st') \<Rightarrow>
                         Inr (\<lparr>pr_url = url, pr_status = ''success'', pr_file = Some path,
                               pr_original_file = Some original_file, pr_assets = assets_used,
                               pr_error = None\<rparr> # records, st'))))"

definition mkdir_snapshot :: "string \<Rightarrow> archiver \<Rightarrow> archiver" where
  \<comment> \<open>\<^verbatim>\<open>snapshot_dir.mkdir(exist_ok=True)\<close>\<close>
  "mkdir_snapshot name st =
     (case map_of (snapshots st) name of
        Some d \<Rightarrow> st
      | None \<Rightarrow> st\<lparr>snapshots := snapshots st @ [(name, \<lparr>sd_files = [], sd_manifest = None\<rparr>)]\<rparr>)"

definition snapshot :: "lib \<Rightarrow> formats \<Rightarrow> clock \<Rightarrow> string list option \<Rightarrow> archiver
    \<Rightarrow> py_error + string option \<times> archiver" where
  \<comment> \<open>\<^verbatim>\<open>snapshot(pages_to_archive)\<close>; the result is the path of the new directory, or
      \<open>None\<close>. The upload to the Internet Archive, which is off unless it is asked for, is
      left out.\<close>
  "snapshot L F clk pages st =
     (let temp_pages = fetch_pages L pages st;
          st0 = st\<lparr>requests := requests st @ map (\<lambda>p. PageRequest (temp_url p)) temp_pages\<rparr>
      in case has_content_changed_from_temp L clk temp_pages st0 of
           Inl e \<Rightarrow> Inl e
         | Inr (changed, st1) \<Rightarrow>
             if \<not> changed then Inr (None, st1)
             else (let name = timestamp clk;
                       st2 = mkdir_snapshot name st1
                   in case build_pages L name temp_pages st2 of
                        Inl e \<Rightarrow> Inl e
                      | Inr (records, st3) \<Rightarrow>
                          (let m = \<lparr>m_timestamp = name, m_base_url = base_url st,
                                    m_pages = records\<rparr>;
                               st4 = write_manifest name m st3
                           in case generate_change_summary L F clk name temp_pages st4 of
                                Inl e \<Rightarrow> Inl e
                              | Inr (change_summary, st5) \<Rightarrow>
                                  Inr (Some (snapshot_path st name), st5))))"

section \<open>A parser and libraries for examples\<close>

text \<open>
  To run the model on concrete pages, a parser for a fragment of HTML: text without
  \<^verbatim>\<open>&\<close>, start tags whose attributes are written \<^verbatim>\<open> name="value"\<close>, end tags, properly
  nested, void elements without end tag. On this fragment the tree is the one that
  \<^verbatim>\<open>BeautifulSoup(html, 'html.parser')\<close> builds; outside it the result is \<open>None\<close>.
\<close>

datatype token = TText string | TStart string "(string \<times> string) list" | TEnd string

definition name_char :: "char \<Rightarrow> bool" where
  "name_char c = (c \<in> set ''abcdefghijklmnopqrstuvwxyz0123456789'')"

definition value_char :: "char \<Rightarrow> bool" where
  "value_char c = (c \<notin> set [CHR 0x22, CHR ''&'', CHR ''<'', CHR ''>''])"

function lex_attrs :: "string \<Rightarrow> ((string \<times> string) list \<times> string) option" where
  "lex_attrs s =
     (if startswith s ''>'' then Some ([], drop 1 s)
      else if startswith s '' '' then
        (let key = takeWhile name_char (drop 1 s);
             v = takeWhile value_char (drop (length key + 3) s);
             rest = drop (length key + length v + 4) s
         in if key \<noteq> [] \<and> startswith (drop (length key + 1) s) (''='' @ [CHR 0x22])
               \<and> startswith (drop (length key + length v + 3) s) [CHR 0x22]
            then (case lex_attrs rest of
                    None \<Rightarrow> None
                  | Some (attrs, rest') \<Rightarrow> Some ((key, v) # attrs, rest'))
            else None)
      else None)"
  by pat_completeness auto
termination
proof (relation "measure length", goal_cases)
  case 1
  show ?case by simp
next
  case (2 s key v rest)
  then have "s \<noteq> []" by (auto simp: startswith_def)
  with 2 show ?case by simp
qed

declare lex_attrs.simps [simp del]

function lex :: "string \<Rightarrow> token list option" where
  "lex s =
     (if s = [] then Some []
      else if startswith s ''</'' then
        (let name = takeWhile name_char (drop 2 s)
         in if name \<noteq> [] \<and> startswith (drop (length name + 2) s) ''>''
            then (case lex (drop (length name + 3) s) of
                    None \<Rightarrow> None
                  | Some ts \<Rightarrow> Some (TEnd name # ts))
            else None)
      else if startswith s ''<'' then
        (let name = takeWhile name_char (drop 1 s)
         in if name = [] \<or> hd name \<in> set ''0123456789''
               \<or> name \<in> set [''script'', ''style'', ''textarea'', ''title'']
            then None
            else (case lex_attrs (drop (length name + 1) s) of
                    None \<Rightarrow> None
                  | Some (attrs, rest) \<Rightarrow>
                      if distinct (map fst attrs) \<and> length rest < length s
                      then (case lex rest of
                              None \<Rightarrow> None
                            | Some ts \<Rightarrow> Some (TStart name attrs # ts))
                      else None))
      else (let t = takeWhile (\<lambda>c. c \<noteq> CHR ''<'') s
            in if CHR ''&'' \<in> set t then None
               else (case lex (drop (length t) s) of
                       None \<Rightarrow> None
                     | Some ts \<Rightarrow> Some (TText t # ts))))"
  by pat_completeness auto
termination
proof (relation "measure length", goal_cases)
  case 1
  show ?case by simp
next
  case (2 s name)
  then show ?case by (auto simp: startswith_def)
next
  case (3 s name attrs_rest attrs rest)
  then show ?case by simp
next
  case (4 s t)
  then have "takeWhile (\<lambda>c. c \<noteq> CHR ''<'') s \<noteq> []"
    by (cases s) (auto simp: startswith_def)
  with 4 show ?case by (cases s) auto
qed

declare lex.simps [simp del]

fun build_tree :: "token list \<Rightarrow> (string \<times> (string \<times> string) list \<times> node list) list \<Rightarrow> node list
    \<Rightarrow> node list option" where
  \<comment> \<open>the stack holds the open elements with the children their parents have so far, in
      reverse; elements that are open at the end are closed there\<close>
  "build_tree [] [] acc = Some (rev acc)"
| "build_tree [] ((name, attrs, outer) # stack) acc =
     build_tree [] stack (Element name attrs (rev acc) # outer)"
| "build_tree (TText t # ts) stack acc = build_tree ts stack (Text t # acc)"
| "build_tree (TStart name attrs # ts) stack acc =
     (if name \<in> set void_elements then build_tree ts stack (Element name attrs [] # acc)
      else build_tree ts ((name, attrs, acc) # stack) [])"
| "build_tree (TEnd name # ts) [] acc = None"
| "build_tree (TEnd name # ts) ((name', attrs, outer) # stack) acc =
     (if name = name' then build_tree ts stack (Element name attrs (rev acc) # outer) else None)"

definition parse_fragment :: "string \<Rightarrow> node list option" where
  "parse_fragment html = (case lex html of None \<Rightarrow> None | Some ts \<Rightarrow> build_tree ts [] [])"

text \<open>
  Stand-ins for the libraries, for URLs of the form \<^verbatim>\<open>https://host/path?query\<close> and
  references that are absolute or start with a slash. The digest is the content itself,
  which keeps distinct contents apart. What the network returns is left open.
\<close>

definition example_origin :: "string \<Rightarrow> string" where
  "example_origin url = take 8 url @ takeWhile (\<lambda>c. c \<noteq> CHR ''/'') (drop 8 url)"

definition example_path :: "string \<Rightarrow> string" where
  "example_path url =
     takeWhile (\<lambda>c. c \<noteq> CHR ''?'' \<and> c \<noteq> CHR ''#'')
       (dropWhile (\<lambda>c. c \<noteq> CHR ''/'') (drop 8 url))"

definition example_lib :: "(string \<Rightarrow> string + string) \<Rightarrow> (string \<Rightarrow> string option) \<Rightarrow> lib" where
  "example_lib pages assets =
     \<lparr>sha256_hexdigest = (\<lambda>content. content),
      urlparse_path = example_path,
      urljoin = (\<lambda>base ref. if startswith ref ''http'' then ref else example_origin base @ ref),
      get_content = assets,
      get_text = pages,
      html_parser = (\<lambda>html. case parse_fragment html of Some soup \<Rightarrow> soup | None \<Rightarrow> [])\<rparr>"

definition offline :: lib where
  \<comment> \<open>no page and no asset can be fetched\<close>
  "offline = example_lib (\<lambda>url. Inl ''offline'') (\<lambda>url. None)"

definition empty_archiver :: archiver where
  "empty_archiver =
     \<lparr>base_url = ''https://example.com'', output_dir = ''snapshots'', domain = ''example.com'',
      asset_cache = [], cache_file = None, asset_files = [], snapshots = [], debug_files = [],
      requests = []\<rparr>"

text \<open>
  An output directory after a first run on \<^verbatim>\<open>https://example.com/\<close>, a site that answers
  every page request with the same HTML, and the clock of a second run.
\<close>

definition old_page :: page_record where
  "old_page = \<lparr>pr_url = ''https://example.com/'', pr_status = ''success'',
      pr_file = Some ''index.html'', pr_original_file = Some ''index_original.html'',
      pr_assets = [], pr_error = None\<rparr>"

definition old_snapshot :: snapshot_dir where
  "old_snapshot =
     \<lparr>sd_files = [(''index.html'', ''<p>old text</p>''),
                  (''index_original.html'', ''<p>old text</p>''),
                  (''CHANGES.txt'', ''INITIAL SNAPSHOT'')],
      sd_manifest = Some \<lparr>m_timestamp = ''2024-01-01_00-00-00'',
                           m_base_url = ''https://example.com'',
                           m_pages = [old_page]\<rparr>\<rparr>"

definition archiver_after_first_run :: archiver where
  "archiver_after_first_run =
     empty_archiver\<lparr>snapshots := [(''2024-01-01_00-00-00'', old_snapshot)]\<rparr>"

definition site :: "string \<Rightarrow> lib" where
  \<comment> \<open>the site answers every page request with the same HTML and serves no assets\<close>
  "site html = example_lib (\<lambda>url. Inr html) (\<lambda>url. None)"

definition second_run :: clock where
  "second_run = \<lparr>timestamp = ''2024-01-02_00-00-00'', debug_stamp = ''20240102_000000'',
                  summary_date = ''2024-01-02 00:00:00''\<rparr>"

definition plain_formats :: formats where
  "plain_formats = \<lparr>length_line = (\<lambda>p c. ''  Content length: '' @ show_nat p @ '' -> '' @ show_nat c @ '' chars''),
                     percent_line = (\<lambda>p c. ''  Approximate change'')\<rparr>"

definition unfinished_archiver :: archiver where
  "unfinished_archiver =
     empty_archiver\<lparr>snapshots := [(''2024-01-01_00-00-00'', \<lparr>sd_files = [], sd_manifest = None\<rparr>)]\<rparr>"


section \<open>Relating a tree before and after a loop over its tags\<close>

text \<open>
  \<open>tags_rel R x y\<close>: the trees \<open>x\<close> and \<open>y\<close> have the same shape, the same text, comments
  and element names, and the attributes of every pair of corresponding elements are
  related by \<open>R\<close>, which also gets the name of the element.
\<close>

fun tags_rel :: "(string \<Rightarrow> (string \<times> string) list \<Rightarrow> (string \<times> string) list \<Rightarrow> bool)
                  \<Rightarrow> node \<Rightarrow> node \<Rightarrow> bool"
  and tags_rel_list :: "(string \<Rightarrow> (string \<times> string) list \<Rightarrow> (string \<times> string) list \<Rightarrow> bool)
                  \<Rightarrow> node list \<Rightarrow> node list \<Rightarrow> bool" where
  "tags_rel R (Text t) y = (y = Text t)"
| "tags_rel R (Comment t) y = (y = Comment t)"
| "tags_rel R (Doctype t) y = (y = Doctype t)"
| "tags_rel R (Element name attrs children) y =
     (case y of
        Element name' attrs' children' \<Rightarrow>
          name' = name \<and> R name attrs attrs' \<and> tags_rel_list R children children'
      | _ \<Rightarrow> False)"
| "tags_rel_list R [] ys = (ys = [])"
| "tags_rel_list R (x # xs) ys =
     (case ys of [] \<Rightarrow> False | y # ys' \<Rightarrow> tags_rel R x y \<and> tags_rel_list R xs ys')"

definition tracking_stripped :: "string \<Rightarrow> (string \<times> string) list \<Rightarrow> (string \<times> string) list \<Rightarrow> bool" where
  \<comment> \<open>what the two loops of the normaliser do to the attributes of one element: the
      attribute names stay, \<^verbatim>\<open>href\<close> of \<^verbatim>\<open>a\<close>, \<^verbatim>\<open>link\<close>, \<^verbatim>\<open>script\<close>, \<^verbatim>\<open>img\<close> and
      \<^verbatim>\<open>src\<close> of \<^verbatim>\<open>img\<close>, \<^verbatim>\<open>script\<close> go through \<open>strip_tracking\<close>, every other value
      stays\<close>
  "tracking_stripped name attrs attrs' =
     (map fst attrs' = map fst attrs
      \<and> map_of attrs' ''href''
          = (if name \<in> set [''a'', ''link'', ''script'', ''img'']
             then map_option strip_tracking (map_of attrs ''href'') else map_of attrs ''href'')
      \<and> map_of attrs' ''src''
          = (if name \<in> set [''img'', ''script'']
             then map_option strip_tracking (map_of attrs ''src'') else map_of attrs ''src'')
      \<and> [kv \<leftarrow> attrs'. fst kv \<noteq> ''href'' \<and> fst kv \<noteq> ''src'']
          = [kv \<leftarrow> attrs. fst kv \<noteq> ''href'' \<and> fst kv \<noteq> ''src''])"

section \<open>What the page rewriter does to one element\<close>

definition asset_ref :: "string \<Rightarrow> (string \<times> string) list \<Rightarrow> (string \<times> string) option" where
  \<comment> \<open>the attribute of an element that one of the loops of \<^verbatim>\<open>_rewrite_html\<close> resolves and
      downloads, with its value: \<^verbatim>\<open>src\<close> of an \<^verbatim>\<open>img\<close> when it is not empty,
      \<^verbatim>\<open>href\<close> of a style-sheet \<^verbatim>\<open>link\<close> when it is not empty, \<^verbatim>\<open>src\<close> of a \<^verbatim>\<open>script\<close>\<close>
  "asset_ref name attrs =
     (if name = ''img'' then
        (case attr_get attrs ''src'' of
           None \<Rightarrow> None | Some ref \<Rightarrow> if ref = [] then None else Some (''src'', ref))
      else if name = ''link'' \<and> has_rel_stylesheet attrs then
        (case attr_get attrs ''href'' of
           None \<Rightarrow> None | Some ref \<Rightarrow> if ref = [] then None else Some (''href'', ref))
      else if name = ''script'' then
        (case attr_get attrs ''src'' of None \<Rightarrow> None | Some ref \<Rightarrow> Some (''src'', ref))
      else None)"

definition fetched :: "lib \<Rightarrow> string \<Rightarrow> string \<Rightarrow> (string \<times> string) list \<Rightarrow> bool" where
  \<comment> \<open>the element has such a reference and its download gives content\<close>
  "fetched L page_url name attrs =
     (case asset_ref name attrs of
        None \<Rightarrow> False
      | Some (key, ref) \<Rightarrow>
          (case get_content L (urljoin L page_url ref) of None \<Rightarrow> False | Some bytes \<Rightarrow> bytes \<noteq> []))"

definition rewritten :: "lib \<Rightarrow> string \<Rightarrow> string list \<Rightarrow> string \<Rightarrow> (string \<times> string) list
    \<Rightarrow> (string \<times> string) list \<Rightarrow> bool" where
  \<comment> \<open>the attributes before and after: the reference of an element whose download gave
      content points to one of the paths of \<open>assets_used\<close>, every other element is as it
      was\<close>
  "rewritten L page_url assets_used name attrs attrs' =
     (case asset_ref name attrs of
        None \<Rightarrow> attrs' = attrs
      | Some (key, ref) \<Rightarrow>
          if fetched L page_url name attrs
          then \<exists>p \<in> set assets_used. attrs' = dict_set key (''../../'' @ p) attrs
          else attrs' = attrs)"

fun count_tags :: "(string \<Rightarrow> (string \<times> string) list \<Rightarrow> bool) \<Rightarrow> node \<Rightarrow> nat"
  and count_tags_list :: "(string \<Rightarrow> (string \<times> string) list \<Rightarrow> bool) \<Rightarrow> node list \<Rightarrow> nat" where
  \<comment> \<open>the number of elements of the tree whose name and attributes satisfy \<open>P\<close>\<close>
  "count_tags P (Text t) = 0"
| "count_tags P (Comment t) = 0"
| "count_tags P (Doctype t) = 0"
| "count_tags P (Element name attrs children) =
     (if P name attrs then 1 else 0) + count_tags_list P children"
| "count_tags_list P [] = 0"
| "count_tags_list P (x # xs) = count_tags P x + count_tags_list P xs"

text \<open>
  A site for examples whose only asset that can be fetched is \<^verbatim>\<open>/b.png\<close>.
\<close>

definition one_asset :: lib where
  "one_asset =
     example_lib (\<lambda>url. Inl ''offline'')
       (\<lambda>url. if url = ''https://example.com/b.png'' then Some ''PNG'' else None)"



section \<open>Tracking parameters in a value\<close>

definition tracking_keys :: "string list" where
  \<comment> \<open>the literal parts of the four patterns of the tracking-parameter pass\<close>
  "tracking_keys = [''?_gl='', ''&_gl='', ''?_ga='', ''&_ga='']"

definition has_tracking_param :: "string \<Rightarrow> bool" where
  \<comment> \<open>somewhere in the value stands a parameter \<^verbatim>\<open>_gl\<close> or \<^verbatim>\<open>_ga\<close>, joined by \<^verbatim>\<open>?\<close> or by
      \<^verbatim>\<open>&\<close>, whose value has at least one character that is no quote, no \<^verbatim>\<open>>\<close> and no
      whitespace\<close>
  "has_tracking_param v =
     (\<exists>i \<in> set [0 ..< length v]. \<exists>k \<in> set tracking_keys.
        startswith (drop i v) k
        \<and> (case drop (i + length k) v of [] \<Rightarrow> False | c # cs \<Rightarrow> url_char c))"

section \<open>Properties of the file-name derivation\<close>

text \<open>
  C2 at the URL path \<^verbatim>\<open>/docs/page.html\<close>: the path is not the root, yet its slash is
  not flattened, because the replacement of the slashes sits under the guard on the
  \<^verbatim>\<open>.html\<close> suffix. The name \<^verbatim>\<open>docs/page.html\<close> is then opened below the directory
  of the snapshot, where no subdirectory is made, and \<^verbatim>\<open>snapshot\<close> ends with the
  exception.
\<close>

theorem page_filename_keeps_slash:
  "page_filename ''/docs/page.html'' = ''docs/page.html''
   \<and> snapshot (site ''<p>new text</p>'') plain_formats second_run
       (Some [''https://example.com/docs/page.html'']) archiver_after_first_run
     = Inl (FileNotFoundError ''docs/page.html'')"
  by code_simp

text \<open>
  What the derivation does on the other paths: the root path gives \<^verbatim>\<open>index.html\<close>,
  \<^verbatim>\<open>/about/team\<close> gives \<^verbatim>\<open>about_team.html\<close>; a path that, once its outer slashes are
  stripped, is not empty and does not already end in \<^verbatim>\<open>.html\<close> has every slash replaced
  by an underscore and \<^verbatim>\<open>.html\<close> appended.
\<close>

lemma str_replace_char:
  "str_replace [a] [b] s = map (\<lambda>c. if c = a then b else c) s"
  by (induction s) (auto simp: startswith_def)

lemma page_filename_flattens:
  fixes url_path :: string
  defines "p \<equiv> strip_char CHR ''/'' url_path"
  shows "page_filename ''/'' = ''index.html''
       \<and> page_filename ''/about/team'' = ''about_team.html''
       \<and> (p \<noteq> [] \<and> \<not> endswith p ''.html'' \<longrightarrow>
            page_filename url_path = map (\<lambda>c. if c = CHR ''/'' then CHR ''_'' else c) p @ ''.html'')"
proof -
  have root: "page_filename ''/'' = ''index.html''"
    by (simp add: page_filename_def strip_char_def endswith_def startswith_def)
  have team: "page_filename ''/about/team'' = ''about_team.html''"
    by (simp add: page_filename_def strip_char_def endswith_def startswith_def)
  have flat: "p \<noteq> [] \<and> \<not> endswith p ''.html'' \<longrightarrow>
      page_filename url_path = map (\<lambda>c. if c = CHR ''/'' then CHR ''_'' else c) p @ ''.html''"
    unfolding p_def page_filename_def Let_def by (simp add: str_replace_char)
  from root team flat show ?thesis by blast
qed

section \<open>Properties of the serialiser\<close>

text \<open>
  The attributes of a tag are written in the order of their names.
\<close>

lemma attrs_sorted_example:
  "soup_str [Element ''a'' [(''href'', ''/p''), (''class'', ''x'')] [Text ''t'']]
     = ''<a class=\"x\" href=\"/p\">t</a>''"
  by code_simp

section \<open>Properties of the asset store\<close>


lemma map_of_dict_set: "map_of (dict_set k v kvs) = (map_of kvs)(k \<mapsto> v)"
  by (induction kvs) auto

lemma dict_set_absent: "map_of kvs k = None \<Longrightarrow> dict_set k v kvs = kvs @ [(k, v)]"
  by (induction kvs) (auto split: if_splits)

text \<open>
  C4: two calls of \<^verbatim>\<open>_save_asset\<close> with the same content, under any two URLs. The second
  call returns the path of the first and leaves the state as it is: no file is written and
  no entry is added. When the hash of the content was not in the cache before the first
  call, the cache has one entry more after both calls, and one file was written, at the
  returned path.
\<close>

theorem save_asset_dedup:
  assumes "save_asset L url1 content st = (p1, st1)"
    and "save_asset L url2 content st1 = (p2, st2)"
  shows "p2 = p1 \<and> st2 = st1
       \<and> (map_of (asset_cache st) (get_file_hash L content) = None \<longrightarrow>
            length (asset_cache st2) = length (asset_cache st) + 1
            \<and> asset_files st2 = dict_set p1 content (asset_files st))"
proof -
  have hit: "map_of (asset_cache st1) (get_file_hash L content) = Some p1"
    using assms(1)
    by (auto simp: save_asset_def Let_def map_of_dict_set split: option.splits)
  from hit assms(2) have same: "p2 = p1 \<and> st2 = st1"
    by (simp add: save_asset_def)
  have grow: "map_of (asset_cache st) (get_file_hash L content) = None \<longrightarrow>
      length (asset_cache st1) = length (asset_cache st) + 1
      \<and> asset_files st1 = dict_set p1 content (asset_files st)"
    using assms(1)
    by (auto simp: save_asset_def Let_def dict_set_absent split: option.splits)
  from same grow show ?thesis by simp
qed

theorem save_asset_dedup_witness:
  "save_asset offline ''https://example.com/img/logo.png'' ''PNG-bytes'' empty_archiver
     = (''assets/images/PNG-bytes.png'',
        empty_archiver\<lparr>asset_files := [(''assets/images/PNG-bytes.png'', ''PNG-bytes'')],
                         asset_cache := [(''PNG-bytes'', ''assets/images/PNG-bytes.png'')],
                         cache_file := Some [(''PNG-bytes'', ''assets/images/PNG-bytes.png'')]\<rparr>)
   \<and> save_asset offline ''https://cdn.example.org/copy.gif'' ''PNG-bytes''
        (empty_archiver\<lparr>asset_files := [(''assets/images/PNG-bytes.png'', ''PNG-bytes'')],
                         asset_cache := [(''PNG-bytes'', ''assets/images/PNG-bytes.png'')],
                         cache_file := Some [(''PNG-bytes'', ''assets/images/PNG-bytes.png'')]\<rparr>)
     = (''assets/images/PNG-bytes.png'',
        empty_archiver\<lparr>asset_files := [(''assets/images/PNG-bytes.png'', ''PNG-bytes'')],
                         asset_cache := [(''PNG-bytes'', ''assets/images/PNG-bytes.png'')],
                         cache_file := Some [(''PNG-bytes'', ''assets/images/PNG-bytes.png'')]\<rparr>)
   \<and> map_of (asset_cache empty_archiver) (get_file_hash offline ''PNG-bytes'') = None
   \<and> length (asset_cache (empty_archiver\<lparr>asset_files := [(''assets/images/PNG-bytes.png'', ''PNG-bytes'')],
                         asset_cache := [(''PNG-bytes'', ''assets/images/PNG-bytes.png'')],
                         cache_file := Some [(''PNG-bytes'', ''assets/images/PNG-bytes.png'')]\<rparr>))
       = length (asset_cache empty_archiver) + 1"
proof -
  let ?st1 = "empty_archiver\<lparr>asset_files := [(''assets/images/PNG-bytes.png'', ''PNG-bytes'')],
                         asset_cache := [(''PNG-bytes'', ''assets/images/PNG-bytes.png'')],
                         cache_file := Some [(''PNG-bytes'', ''assets/images/PNG-bytes.png'')]\<rparr>"
  have first: "save_asset offline ''https://example.com/img/logo.png'' ''PNG-bytes'' empty_archiver
     = (''assets/images/PNG-bytes.png'', ?st1)"
    unfolding save_asset_def Let_def
    by (simp add: get_file_hash_def offline_def example_lib_def example_path_def
        empty_archiver_def splitext_ext_def asset_type_of_def)
  have second: "save_asset offline ''https://cdn.example.org/copy.gif'' ''PNG-bytes'' ?st1
     = (''assets/images/PNG-bytes.png'', ?st1)"
    unfolding save_asset_def Let_def
    by (simp add: get_file_hash_def offline_def example_lib_def empty_archiver_def)
  have fresh: "map_of (asset_cache empty_archiver) (get_file_hash offline ''PNG-bytes'') = None"
    by (simp add: empty_archiver_def)
  from save_asset_dedup [OF first second] first second fresh show ?thesis by simp
qed

section \<open>Properties of the change detector\<close>

lemma most_recent_empty: "snapshots st = [] \<Longrightarrow> get_most_recent_snapshot st = None"
  by (simp add: get_most_recent_snapshot_def)

text \<open>
  C3: when there is no directory under the snapshot root, or the most recent one has no
  manifest, the detector returns \<open>True\<close> for every batch of pages; the result depends
  neither on the pages nor on the parser, and the state is left as it is.
\<close>

theorem first_run_changed:
  assumes "snapshots st = []
         \<or> (\<exists>name d. get_most_recent_snapshot st = Some (name, d) \<and> sd_manifest d = None)"
  shows "has_content_changed_from_temp L clk temp_pages st = Inr (True, st)"
  using assms
  by (auto simp: has_content_changed_from_temp_def most_recent_empty)



theorem first_run_changed_witness:
  "snapshots empty_archiver = []
   \<and> has_content_changed_from_temp offline second_run
        [Success ''https://example.com/'' ''<p>old text</p>''] empty_archiver
      = Inr (True, empty_archiver)
   \<and> get_most_recent_snapshot unfinished_archiver
      = Some (''2024-01-01_00-00-00'', \<lparr>sd_files = [], sd_manifest = None\<rparr>)
   \<and> has_content_changed_from_temp offline second_run
        [Success ''https://example.com/'' ''<p>old text</p>''] unfinished_archiver
      = Inr (True, unfinished_archiver)"
proof -
  have e: "snapshots empty_archiver = []"
    by (simp add: empty_archiver_def)
  have u: "get_most_recent_snapshot unfinished_archiver
      = Some (''2024-01-01_00-00-00'', \<lparr>sd_files = [], sd_manifest = None\<rparr>)"
    by (simp add: get_most_recent_snapshot_def unfinished_archiver_def empty_archiver_def)
  have "has_content_changed_from_temp offline second_run
        [Success ''https://example.com/'' ''<p>old text</p>''] empty_archiver
      = Inr (True, empty_archiver)"
    using first_run_changed [of empty_archiver] e by simp
  moreover have "has_content_changed_from_temp offline second_run
        [Success ''https://example.com/'' ''<p>old text</p>''] unfinished_archiver
      = Inr (True, unfinished_archiver)"
    using first_run_changed [of unfinished_archiver] u by simp
  ultimately show ?thesis using e u by simp
qed

lemma compare_pages_False:
  "compare_pages L clk prev pm tps st = Inr (False, st') \<Longrightarrow> st' = st"
  by (induction L clk prev pm tps st rule: compare_pages.induct)
     (auto simp: Let_def split: option.splits sum.splits if_splits)

lemma compare_pages_skip:
  "compare_pages L clk prev pm (before @ Failed url err # after) st
     = compare_pages L clk prev pm (before @ after) st"
  by (induction L clk prev pm before st rule: compare_pages.induct)
     (auto simp: Let_def split: option.splits sum.splits)

lemma compare_pages_unchanged_any:
  "compare_pages L clk prev pm tps st = Inr (False, st')
     \<Longrightarrow> compare_pages L clk' prev pm tps (st\<lparr>requests := r\<rparr>) = Inr (False, st\<lparr>requests := r\<rparr>)"
  by (induction L clk prev pm tps st rule: compare_pages.induct)
     (auto simp: Let_def split: option.splits sum.splits if_splits)

lemma most_recent_requests [simp]:
  "get_most_recent_snapshot (st\<lparr>requests := r\<rparr>) = get_most_recent_snapshot st"
  by (simp add: get_most_recent_snapshot_def)

lemma has_changed_False:
  "has_content_changed_from_temp L clk tps st = Inr (False, st') \<Longrightarrow> st' = st"
  by (auto simp: has_content_changed_from_temp_def dest: compare_pages_False
      split: option.splits if_splits)

lemma has_changed_unchanged_any:
  "has_content_changed_from_temp L clk tps st = Inr (False, st')
     \<Longrightarrow> has_content_changed_from_temp L clk' tps (st\<lparr>requests := r\<rparr>) = Inr (False, st\<lparr>requests := r\<rparr>)"
  by (auto simp: has_content_changed_from_temp_def dest: compare_pages_unchanged_any
      split: option.splits if_splits)

lemma fetch_pages_requests [simp]:
  "fetch_pages L pages (st\<lparr>requests := r\<rparr>) = fetch_pages L pages st"
  by (simp add: fetch_pages_def split: option.splits)

lemma snapshot_no_change:
  assumes "has_content_changed_from_temp L clk (fetch_pages L pages st) st = Inr (False, st')"
  shows "snapshot L F clk' pages (st\<lparr>requests := r\<rparr>)
       = Inr (None, st\<lparr>requests := r @ map (\<lambda>p. PageRequest (temp_url p)) (fetch_pages L pages st)\<rparr>)"
  using has_changed_unchanged_any [OF assms]
  by (simp add: snapshot_def Let_def)




text \<open>
  C10: a page of the batch that failed to fetch is skipped by the loop of the detector.
  So, when the most recent snapshot has a manifest with as many pages as the batch and the
  other pages of the batch show no change, a page that fails leaves the detector at
  \<open>False\<close>, and the run returns \<open>None\<close> without writing anything.
\<close>

theorem failed_page_does_not_trigger:
  assumes "get_most_recent_snapshot st = Some (name, previous_snapshot)"
    and "sd_manifest previous_snapshot = Some previous_manifest"
    and "length (before @ Failed url err # after) = length (m_pages previous_manifest)"
    and "compare_pages L clk previous_snapshot previous_manifest (before @ after) st = Inr (False, st)"
    and "fetch_pages L pages st = before @ Failed url err # after"
  shows "compare_pages L clk previous_snapshot previous_manifest (before @ Failed url err # after) st
           = compare_pages L clk previous_snapshot previous_manifest (before @ after) st
       \<and> has_content_changed_from_temp L clk (before @ Failed url err # after) st = Inr (False, st)
       \<and> snapshot L F clk pages st
           = Inr (None, st\<lparr>requests := requests st
                   @ map (\<lambda>p. PageRequest (temp_url p)) (before @ Failed url err # after)\<rparr>)"
proof -
  have skip: "compare_pages L clk previous_snapshot previous_manifest (before @ Failed url err # after) st
           = compare_pages L clk previous_snapshot previous_manifest (before @ after) st"
    by (rule compare_pages_skip)
  have det: "has_content_changed_from_temp L clk (before @ Failed url err # after) st = Inr (False, st)"
    using assms(1-4) skip by (simp add: has_content_changed_from_temp_def)
  then have "has_content_changed_from_temp L clk (fetch_pages L pages st) st = Inr (False, st)"
    using assms(5) by simp
  from snapshot_no_change [OF this, of F clk "requests st"] assms(5)
  have "snapshot L F clk pages st
           = Inr (None, st\<lparr>requests := requests st
                   @ map (\<lambda>p. PageRequest (temp_url p)) (before @ Failed url err # after)\<rparr>)"
    by simp
  with skip det show ?thesis by simp
qed

theorem failed_page_does_not_trigger_witness:
  "get_most_recent_snapshot archiver_after_first_run = Some (''2024-01-01_00-00-00'', old_snapshot)
   \<and> sd_manifest old_snapshot = Some \<lparr>m_timestamp = ''2024-01-01_00-00-00'',
         m_base_url = ''https://example.com'', m_pages = [old_page]\<rparr>
   \<and> pr_status old_page = ''success''
   \<and> fetch_pages offline (Some [''https://example.com/'']) archiver_after_first_run
       = [Failed ''https://example.com/'' ''offline'']
   \<and> has_content_changed_from_temp offline second_run [Failed ''https://example.com/'' ''offline'']
       archiver_after_first_run = Inr (False, archiver_after_first_run)
   \<and> snapshot offline plain_formats second_run (Some [''https://example.com/''])
       archiver_after_first_run
       = Inr (None, archiver_after_first_run\<lparr>requests := [PageRequest ''https://example.com/'']\<rparr>)"
proof -
  let ?m = "\<lparr>m_timestamp = ''2024-01-01_00-00-00'',
         m_base_url = ''https://example.com'', m_pages = [old_page]\<rparr>"
  have a1: "get_most_recent_snapshot archiver_after_first_run = Some (''2024-01-01_00-00-00'', old_snapshot)"
    by (simp add: get_most_recent_snapshot_def archiver_after_first_run_def empty_archiver_def)
  have a2: "sd_manifest old_snapshot = Some ?m"
    by (simp add: old_snapshot_def)
  have a3: "length ([] @ Failed ''https://example.com/'' ''offline'' # []) = length (m_pages ?m)"
    by simp
  have a4: "compare_pages offline second_run old_snapshot ?m ([] @ []) archiver_after_first_run
      = Inr (False, archiver_after_first_run)"
    by simp
  have a5: "fetch_pages offline (Some [''https://example.com/'']) archiver_after_first_run
       = [] @ Failed ''https://example.com/'' ''offline'' # []"
    by (simp add: fetch_pages_def fetch_page_def offline_def example_lib_def startswith_def)
  have s: "pr_status old_page = ''success''"
    by (simp add: old_page_def)
  have r: "requests archiver_after_first_run = []"
    by (simp add: archiver_after_first_run_def empty_archiver_def)
  from failed_page_does_not_trigger [OF a1 a2 a3 a4 a5, of plain_formats] a1 a2 a5 s r
  show ?thesis by simp
qed

text \<open>
  C1 at a concrete run: the previous snapshot holds \<^verbatim>\<open><p>old text</p>\<close>, the site now
  answers \<^verbatim>\<open><p>new text</p>\<close>. The detector reports a change and the snapshot is built,
  but its \<^verbatim>\<open>CHANGES.txt\<close> is compared to the directory of this very run and reports no
  change.
\<close>

theorem change_summary_compares_with_new_snapshot:
  "map_sum id (\<lambda>(r, st). (r, read_file st ''2024-01-02_00-00-00'' ''CHANGES.txt''))
     (snapshot (site ''<p>new text</p>'') plain_formats second_run (Some [''https://example.com/''])
        archiver_after_first_run)
   = Inr (Some ''snapshots/example.com/2024-01-02_00-00-00'',
          Some (str_join [CHR 0x0A]
            [replicate 70 CHR ''='', ''WEBSITE CHANGE SUMMARY'', ''Snapshot Date: 2024-01-02 00:00:00'',
             ''Website: https://example.com'', replicate 70 CHR ''='', [],
             ''Compared to: 2024-01-02_00-00-00'', [],
             ''NO CHANGES DETECTED'', ''All monitored pages remain identical to previous snapshot'',
             [], replicate 70 CHR ''='', ''Pages monitored: 1'',
             ''Snapshot stored at: snapshots/example.com/2024-01-02_00-00-00'',
             replicate 70 CHR ''='']))"
  by code_simp

section \<open>Properties of the tracking-parameter pass\<close>

lemma tags_rel_mono:
  "tags_rel R x y \<Longrightarrow> (\<And>n a a'. R n a a' \<Longrightarrow> R' n a a') \<Longrightarrow> tags_rel R' x y"
  "tags_rel_list R xs ys \<Longrightarrow> (\<And>n a a'. R n a a' \<Longrightarrow> R' n a a') \<Longrightarrow> tags_rel_list R' xs ys"
  by (induction R x y and R xs ys rule: tags_rel_tags_rel_list.induct)
     (auto split: node.splits list.splits)

lemma map_tags_rel:
  fixes R :: "'s \<Rightarrow> string \<Rightarrow> (string \<times> string) list \<Rightarrow> (string \<times> string) list \<Rightarrow> bool"
  shows "map_tags f x s = (y, s')
      \<Longrightarrow> (\<And>name attrs s attrs' s'. f name attrs s = (attrs', s') \<Longrightarrow> R s' name attrs attrs' \<and> le s s')
      \<Longrightarrow> (\<And>s. le s s) \<Longrightarrow> (\<And>a b c. le a b \<Longrightarrow> le b c \<Longrightarrow> le a c)
      \<Longrightarrow> (\<And>s s' n a a'. R s n a a' \<Longrightarrow> le s s' \<Longrightarrow> R s' n a a')
      \<Longrightarrow> tags_rel (R s') x y \<and> le s s'"
    and "map_tags_list f xs s = (ys, s')
      \<Longrightarrow> (\<And>name attrs s attrs' s'. f name attrs s = (attrs', s') \<Longrightarrow> R s' name attrs attrs' \<and> le s s')
      \<Longrightarrow> (\<And>s. le s s) \<Longrightarrow> (\<And>a b c. le a b \<Longrightarrow> le b c \<Longrightarrow> le a c)
      \<Longrightarrow> (\<And>s s' n a a'. R s n a a' \<Longrightarrow> le s s' \<Longrightarrow> R s' n a a')
      \<Longrightarrow> tags_rel_list (R s') xs ys \<and> le s s'"
proof (induction f x s and f xs s arbitrary: y s' and ys s' rule: map_tags_map_tags_list.induct)
  case (4 f name attrs children s)
  note step = "4.prems"(2) and refl = "4.prems"(3) and trans = "4.prems"(4) and mono = "4.prems"(5)
  obtain attrs' s1 where f: "f name attrs s = (attrs', s1)" by (cases "f name attrs s")
  obtain children' s2 where c: "map_tags_list f children s1 = (children', s2)"
    by (cases "map_tags_list f children s1")
  from "4.prems"(1) f c have y: "y = Element name attrs' children'" and s': "s' = s2" by auto
  from step [OF f] have r1: "R s1 name attrs attrs'" and l1: "le s s1" by auto
  from "4.IH" [OF f [symmetric] c step refl trans mono]
  have cs: "tags_rel_list (R s2) children children'" and l2: "le s1 s2"
    by auto
  from mono [OF r1 l2] have "R s2 name attrs attrs'" .
  moreover from trans [OF l1 l2] have "le s s2" .
  ultimately show ?case using y s' cs by simp
next
  case (6 f x xs s)
  note step = "6.prems"(2) and refl = "6.prems"(3) and trans = "6.prems"(4) and mono = "6.prems"(5)
  obtain x' s1 where x: "map_tags f x s = (x', s1)" by (cases "map_tags f x s")
  obtain xs' s2 where xs: "map_tags_list f xs s1 = (xs', s2)" by (cases "map_tags_list f xs s1")
  from "6.prems"(1) x xs have ys: "ys = x' # xs'" and s': "s' = s2" by auto
  from "6.IH"(1) [OF x step refl trans mono] have a: "tags_rel (R s1) x x'" and l1: "le s s1" by auto
  from "6.IH"(2) [OF x [symmetric] xs step refl trans mono]
  have b: "tags_rel_list (R s2) xs xs'" and l2: "le s1 s2"
    by auto
  have "tags_rel (R s2) x x'"
    by (rule tags_rel_mono(1) [OF a]) (rule mono [OF _ l2])
  moreover from trans [OF l1 l2] have "le s s2" .
  ultimately show ?case using ys s' b by simp
qed auto


lemma tags_rel_comp:
  "tags_rel R1 x y \<Longrightarrow> tags_rel R2 y z
     \<Longrightarrow> tags_rel (\<lambda>n a a''. \<exists>a'. R1 n a a' \<and> R2 n a' a'') x z"
  "tags_rel_list R1 xs ys \<Longrightarrow> tags_rel_list R2 ys zs
     \<Longrightarrow> tags_rel_list (\<lambda>n a a''. \<exists>a'. R1 n a a' \<and> R2 n a' a'') xs zs"
  by (induction R1 x y and R1 xs ys arbitrary: z and zs rule: tags_rel_tags_rel_list.induct)
     (auto split: node.splits list.splits)

lemma map_fst_dict_set:
  "map_of kvs k = Some v0 \<Longrightarrow> map fst (dict_set k v kvs) = map fst kvs"
  by (induction kvs) (auto split: if_splits)

lemma filter_dict_set:
  "\<not> P (k, v) \<Longrightarrow> (\<And>v'. \<not> P (k, v')) \<Longrightarrow> filter P (dict_set k v kvs) = filter P kvs"
  by (induction kvs) auto

lemma strip_href_rel:
  assumes "strip_href name attrs u = (attrs', u')"
  shows "map fst attrs' = map fst attrs
       \<and> map_of attrs' ''href''
           = (if name \<in> set [''a'', ''link'', ''script'', ''img'']
              then map_option strip_tracking (map_of attrs ''href'') else map_of attrs ''href'')
       \<and> map_of attrs' ''src'' = map_of attrs ''src''
       \<and> [kv \<leftarrow> attrs'. fst kv \<noteq> ''href'' \<and> fst kv \<noteq> ''src'']
           = [kv \<leftarrow> attrs. fst kv \<noteq> ''href'' \<and> fst kv \<noteq> ''src'']"
proof (cases "name \<in> set [''a'', ''link'', ''script'', ''img''] \<and> map_of attrs ''href'' \<noteq> None")
  case True
  then obtain h where h: "map_of attrs ''href'' = Some h" by auto
  with True assms have a: "attrs' = dict_set ''href'' (strip_tracking h) attrs"
    by (auto simp: strip_href_def attr_get_def)
  show ?thesis
    unfolding a using True h
    by (simp add: map_of_dict_set map_fst_dict_set filter_dict_set)
next
  case False
  with assms have "attrs' = attrs"
    by (auto simp: strip_href_def attr_get_def split: option.splits if_splits)
  with False show ?thesis by auto
qed

lemma strip_src_rel:
  assumes "strip_src name attrs u = (attrs', u')"
  shows "map fst attrs' = map fst attrs
       \<and> map_of attrs' ''src''
           = (if name \<in> set [''img'', ''script'']
              then map_option strip_tracking (map_of attrs ''src'') else map_of attrs ''src'')
       \<and> map_of attrs' ''href'' = map_of attrs ''href''
       \<and> [kv \<leftarrow> attrs'. fst kv \<noteq> ''href'' \<and> fst kv \<noteq> ''src'']
           = [kv \<leftarrow> attrs. fst kv \<noteq> ''href'' \<and> fst kv \<noteq> ''src'']"
proof (cases "name \<in> set [''img'', ''script''] \<and> map_of attrs ''src'' \<noteq> None")
  case True
  then obtain h where h: "map_of attrs ''src'' = Some h" by auto
  with True assms have a: "attrs' = dict_set ''src'' (strip_tracking h) attrs"
    by (auto simp: strip_src_def attr_get_def)
  show ?thesis
    unfolding a using True h
    by (simp add: map_of_dict_set map_fst_dict_set filter_dict_set)
next
  case False
  with assms have "attrs' = attrs"
    by (auto simp: strip_src_def attr_get_def split: option.splits if_splits)
  with False show ?thesis by auto
qed

lemma strip_tracking_soup_rel: "tags_rel_list tracking_stripped soup (strip_tracking_soup soup)"
proof -
  obtain soup1 u1 where p1: "map_tags_list strip_href soup () = (soup1, u1)"
    by (cases "map_tags_list strip_href soup ()")
  obtain soup2 u2 where p2: "map_tags_list strip_src soup1 () = (soup2, u2)"
    by (cases "map_tags_list strip_src soup1 ()")
  let ?R1 = "\<lambda>(s::unit) name attrs attrs'. map fst attrs' = map fst attrs
       \<and> map_of attrs' ''href''
           = (if name \<in> set [''a'', ''link'', ''script'', ''img'']
              then map_option strip_tracking (map_of attrs ''href'') else map_of attrs ''href'')
       \<and> map_of attrs' ''src'' = map_of attrs ''src''
       \<and> [kv \<leftarrow> attrs'. fst kv \<noteq> ''href'' \<and> fst kv \<noteq> ''src'']
           = [kv \<leftarrow> attrs. fst kv \<noteq> ''href'' \<and> fst kv \<noteq> ''src'']"
  let ?R2 = "\<lambda>(s::unit) name attrs attrs'. map fst attrs' = map fst attrs
       \<and> map_of attrs' ''src''
           = (if name \<in> set [''img'', ''script'']
              then map_option strip_tracking (map_of attrs ''src'') else map_of attrs ''src'')
       \<and> map_of attrs' ''href'' = map_of attrs ''href''
       \<and> [kv \<leftarrow> attrs'. fst kv \<noteq> ''href'' \<and> fst kv \<noteq> ''src'']
           = [kv \<leftarrow> attrs. fst kv \<noteq> ''href'' \<and> fst kv \<noteq> ''src'']"
  have r1: "tags_rel_list (?R1 u1) soup soup1"
    using map_tags_rel(2) [OF p1, of ?R1 "\<lambda>a b. True"] strip_href_rel by blast
  have r2: "tags_rel_list (?R2 u2) soup1 soup2"
    using map_tags_rel(2) [OF p2, of ?R2 "\<lambda>a b. True"] strip_src_rel by blast
  have "tags_rel_list tracking_stripped soup soup2"
    by (rule tags_rel_mono(2) [OF tags_rel_comp(2) [OF r1 r2]])
       (auto simp: tracking_stripped_def)
  then show ?thesis
    by (simp add: strip_tracking_soup_def p1 p2)
qed

lemma startswith_set: "startswith s lit \<Longrightarrow> set lit \<subseteq> set s"
  unfolding startswith_def by (metis set_take_subset)

lemma lit_run_no_char: "x \<in> set lit \<Longrightarrow> x \<notin> set s \<Longrightarrow> lit_run lit cls s = None"
  using startswith_set [of s lit] by (auto simp: lit_run_def Let_def)

lemma re_sub_no_char: "x \<in> set lit \<Longrightarrow> x \<notin> set s \<Longrightarrow> re_sub (lit_run lit cls) r s = s"
  by (induction s) (auto simp: lit_run_no_char)

lemma re_sub_whole:
  assumes "v \<noteq> []" and "\<forall>c \<in> set v. cls c"
  shows "re_sub (lit_run (q # rest) cls) [] ((q # rest) @ v) = []"
proof -
  have tw: "takeWhile cls v = v" using assms(2) by (simp add: takeWhile_eq_all_conv)
  have "lit_run (q # rest) cls ((q # rest) @ v) = Some (Suc (length rest + length v))"
    using assms(1) by (simp add: lit_run_def startswith_def tw)
  then show ?thesis by simp
qed


text \<open>
  C7, as stated, at \<^verbatim>\<open><iframe src="/embed?_gl=abc"></iframe>\<close>: the \<^verbatim>\<open>src\<close> of an
  \<^verbatim>\<open>iframe\<close> keeps its tracking parameter, since the loops only visit \<^verbatim>\<open>a\<close>,
  \<^verbatim>\<open>link\<close>, \<^verbatim>\<open>script\<close> and \<^verbatim>\<open>img\<close> for \<^verbatim>\<open>href\<close>, and \<^verbatim>\<open>img\<close> and \<^verbatim>\<open>script\<close> for
  \<^verbatim>\<open>src\<close>.
\<close>

theorem iframe_src_keeps_tracking:
  "normalize_html_for_comparison offline ''<iframe src=\"/embed?_gl=abc\"></iframe>''
     = ''<iframe src=\"/embed?_gl=abc\"></iframe>''"
  by code_simp

section \<open>Properties of the page rewriter\<close>

lemma map_tags_count:
  fixes m :: "'s \<Rightarrow> nat"
  shows "map_tags f x s = (y, s')
      \<Longrightarrow> (\<And>name attrs s attrs' s'. f name attrs s = (attrs', s')
             \<Longrightarrow> m s' = m s + (if P name attrs then 1 else 0))
      \<Longrightarrow> m s' = m s + count_tags P x"
    and "map_tags_list f xs s = (ys, s')
      \<Longrightarrow> (\<And>name attrs s attrs' s'. f name attrs s = (attrs', s')
             \<Longrightarrow> m s' = m s + (if P name attrs then 1 else 0))
      \<Longrightarrow> m s' = m s + count_tags_list P xs"
proof (induction f x s and f xs s arbitrary: y s' and ys s' rule: map_tags_map_tags_list.induct)
  case (4 f name attrs children s)
  note step = "4.prems"(2)
  obtain attrs' s1 where f: "f name attrs s = (attrs', s1)" by (cases "f name attrs s")
  obtain children' s2 where c: "map_tags_list f children s1 = (children', s2)"
    by (cases "map_tags_list f children s1")
  from "4.prems"(1) f c have s': "s' = s2" by auto
  from step [OF f] have "m s1 = m s + (if P name attrs then 1 else 0)" .
  moreover from "4.IH" [OF f [symmetric] c step] have "m s2 = m s1 + count_tags_list P children" .
  ultimately show ?case using s' by simp
next
  case (6 f x xs s)
  note step = "6.prems"(2)
  obtain x' s1 where x: "map_tags f x s = (x', s1)" by (cases "map_tags f x s")
  obtain xs' s2 where xs: "map_tags_list f xs s1 = (xs', s2)" by (cases "map_tags_list f xs s1")
  from "6.prems"(1) x xs have s': "s' = s2" by auto
  from "6.IH"(1) [OF x step] have "m s1 = m s + count_tags P x" .
  moreover from "6.IH"(2) [OF x [symmetric] xs step] have "m s2 = m s1 + count_tags_list P xs" .
  ultimately show ?case using s' by simp
qed auto

lemma count_tags_rel:
  "tags_rel R x y \<Longrightarrow> (\<And>n a a'. R n a a' \<Longrightarrow> P n a' = P n a) \<Longrightarrow> count_tags P y = count_tags P x"
  "tags_rel_list R xs ys \<Longrightarrow> (\<And>n a a'. R n a a' \<Longrightarrow> P n a' = P n a)
     \<Longrightarrow> count_tags_list P ys = count_tags_list P xs"
  by (induction R x y and R xs ys rule: tags_rel_tags_rel_list.induct)
     (auto split: node.splits list.splits)

lemma count_tags_split:
  "(\<And>n a. P n a = (P1 n a \<or> P2 n a \<or> P3 n a)) \<Longrightarrow> (\<And>n a. \<not> (P1 n a \<and> P2 n a))
     \<Longrightarrow> (\<And>n a. \<not> (P1 n a \<and> P3 n a)) \<Longrightarrow> (\<And>n a. \<not> (P2 n a \<and> P3 n a))
     \<Longrightarrow> count_tags P x = count_tags P1 x + count_tags P2 x + count_tags P3 x"
  "(\<And>n a. P n a = (P1 n a \<or> P2 n a \<or> P3 n a)) \<Longrightarrow> (\<And>n a. \<not> (P1 n a \<and> P2 n a))
     \<Longrightarrow> (\<And>n a. \<not> (P1 n a \<and> P3 n a)) \<Longrightarrow> (\<And>n a. \<not> (P2 n a \<and> P3 n a))
     \<Longrightarrow> count_tags_list P xs = count_tags_list P1 xs + count_tags_list P2 xs + count_tags_list P3 xs"
  by (induction P x and P xs rule: count_tags_count_tags_list.induct) auto

lemma localise_ref_cases:
  assumes "localise_ref L page_url key ref attrs (used, st) = (attrs', used', st')"
  shows "(case get_content L (urljoin L page_url ref) of
            None \<Rightarrow> attrs' = attrs \<and> used' = used
          | Some bytes \<Rightarrow>
              if bytes = [] then attrs' = attrs \<and> used' = used
              else \<exists>p. used' = used @ [p] \<and> attrs' = dict_set key (''../../'' @ p) attrs)"
  using assms
  by (auto simp: localise_ref_def download_asset_def Let_def split: option.splits prod.splits if_splits)


lemma rewritten_mono:
  "rewritten L page_url used name attrs attrs' \<Longrightarrow> set used \<subseteq> set used'
     \<Longrightarrow> rewritten L page_url used' name attrs attrs'"
proof (cases "asset_ref name attrs")
  case None
  assume "rewritten L page_url used name attrs attrs'"
  with None show ?thesis by (simp add: rewritten_def)
next
  case (Some kr)
  assume r: "rewritten L page_url used name attrs attrs'" and sub: "set used \<subseteq> set used'"
  obtain key ref where kr: "kr = (key, ref)" by (cases kr)
  show ?thesis
  proof (cases "fetched L page_url name attrs")
    case True
    with r Some kr obtain p where p: "p \<in> set used" "attrs' = dict_set key (''../../'' @ p) attrs"
      by (auto simp: rewritten_def)
    from p(1) sub have "p \<in> set used'" by blast
    with p(2) have "\<exists>p \<in> set used'. attrs' = dict_set key (''../../'' @ p) attrs" by blast
    with True Some kr show ?thesis by (simp add: rewritten_def)
  next
    case False
    with r Some kr show ?thesis by (simp add: rewritten_def)
  qed
qed

lemma rewrite_img_step:
  assumes "rewrite_img L page_url name attrs s = (attrs', s')"
  shows "(if name = ''img'' then rewritten L page_url (fst s') name attrs attrs' else attrs' = attrs)
       \<and> set (fst s) \<subseteq> set (fst s')
       \<and> length (fst s') = length (fst s)
           + (if name = ''img'' \<and> fetched L page_url name attrs then 1 else 0)"
proof (cases "asset_ref name attrs \<noteq> None \<and> name = ''img''")
  case True
  then obtain ref where r: "attr_get attrs ''src'' = Some ref" "ref \<noteq> []"
      "asset_ref name attrs = Some (''src'', ref)"
    by (auto simp: asset_ref_def split: option.splits if_splits)
  obtain used st where s: "s = (used, st)" by (cases s)
  obtain used' st' where s': "s' = (used', st')" by (cases s')
  from assms True r s s' have "localise_ref L page_url ''src'' ref attrs (used, st) = (attrs', used', st')"
    by (simp add: rewrite_img_def)
  from localise_ref_cases [OF this] show ?thesis
    using True r s s'
    by (auto simp: rewritten_def fetched_def split: option.splits if_splits)
next
  case False
  with assms have "attrs' = attrs \<and> s' = s"
    by (auto simp: rewrite_img_def asset_ref_def split: option.splits if_splits)
  with False show ?thesis
    by (auto simp: rewritten_def fetched_def split: option.splits)
qed

lemma rewrite_link_step:
  assumes "rewrite_link L page_url name attrs s = (attrs', s')"
  shows "(if name = ''link'' then rewritten L page_url (fst s') name attrs attrs' else attrs' = attrs)
       \<and> set (fst s) \<subseteq> set (fst s')
       \<and> length (fst s') = length (fst s)
           + (if name = ''link'' \<and> fetched L page_url name attrs then 1 else 0)"
proof (cases "asset_ref name attrs \<noteq> None \<and> name = ''link''")
  case True
  then obtain ref where r: "attr_get attrs ''href'' = Some ref" "ref \<noteq> []"
      "asset_ref name attrs = Some (''href'', ref)" "has_rel_stylesheet attrs"
    by (auto simp: asset_ref_def split: option.splits if_splits)
  obtain used st where s: "s = (used, st)" by (cases s)
  obtain used' st' where s': "s' = (used', st')" by (cases s')
  from assms True r s s' have "localise_ref L page_url ''href'' ref attrs (used, st) = (attrs', used', st')"
    by (simp add: rewrite_link_def)
  from localise_ref_cases [OF this] show ?thesis
    using True r s s'
    by (auto simp: rewritten_def fetched_def split: option.splits if_splits)
next
  case False
  with assms have "attrs' = attrs \<and> s' = s"
    by (auto simp: rewrite_link_def asset_ref_def split: option.splits if_splits)
  with False show ?thesis
    by (auto simp: rewritten_def fetched_def split: option.splits)
qed

lemma rewrite_script_step:
  assumes "rewrite_script L page_url name attrs s = (attrs', s')"
  shows "(if name = ''script'' then rewritten L page_url (fst s') name attrs attrs' else attrs' = attrs)
       \<and> set (fst s) \<subseteq> set (fst s')
       \<and> length (fst s') = length (fst s)
           + (if name = ''script'' \<and> fetched L page_url name attrs then 1 else 0)"
proof (cases "asset_ref name attrs \<noteq> None \<and> name = ''script''")
  case True
  then obtain ref where r: "attr_get attrs ''src'' = Some ref"
      "asset_ref name attrs = Some (''src'', ref)"
    by (auto simp: asset_ref_def split: option.splits if_splits)
  obtain used st where s: "s = (used, st)" by (cases s)
  obtain used' st' where s': "s' = (used', st')" by (cases s')
  from assms True r s s' have "localise_ref L page_url ''src'' ref attrs (used, st) = (attrs', used', st')"
    by (simp add: rewrite_script_def)
  from localise_ref_cases [OF this] show ?thesis
    using True r s s'
    by (auto simp: rewritten_def fetched_def split: option.splits if_splits)
next
  case False
  with assms have "attrs' = attrs \<and> s' = s"
    by (auto simp: rewrite_script_def asset_ref_def split: option.splits if_splits)
  with False show ?thesis
    by (auto simp: rewritten_def fetched_def split: option.splits)
qed

lemma fetched_names:
  "fetched L page_url name attrs \<Longrightarrow> name = ''img'' \<or> name = ''link'' \<or> name = ''script''"
  by (auto simp: fetched_def asset_ref_def split: option.splits if_splits)

lemma rewritten_other:
  "name \<noteq> ''img'' \<Longrightarrow> name \<noteq> ''link'' \<Longrightarrow> name \<noteq> ''script''
     \<Longrightarrow> rewritten L page_url used name attrs attrs"
  by (auto simp: rewritten_def asset_ref_def)

lemma rewritten_compose:
  assumes "if n = ''img'' then rewritten L u used n a a1 else a1 = a"
    and "if n = ''link'' then rewritten L u used n a1 a2 else a2 = a1"
    and "if n = ''script'' then rewritten L u used n a2 a3 else a3 = a2"
  shows "rewritten L u used n a a3"
proof -
  consider "n = ''img''" | "n = ''link''" | "n = ''script''"
    | "n \<noteq> ''img''" "n \<noteq> ''link''" "n \<noteq> ''script''" by blast
  then show ?thesis
  proof cases
    case 1
    with assms show ?thesis by simp
  next
    case 2
    with assms show ?thesis by simp
  next
    case 3
    with assms show ?thesis by simp
  next
    case 4
    with assms have "a3 = a" by simp
    with 4 show ?thesis by (simp add: rewritten_other)
  qed
qed

lemma rewrite_soup_rel:
  assumes "rewrite_soup L page_url soup st = (soup', assets_used, st')"
  shows "tags_rel_list (rewritten L page_url assets_used) soup soup'
       \<and> length assets_used = count_tags_list (fetched L page_url) soup"
proof -
  let ?le = "\<lambda>(s :: string list \<times> archiver) s'. set (fst s) \<subseteq> set (fst s')"
  let ?R = "\<lambda>tag (s :: string list \<times> archiver) name attrs attrs'.
      if name = tag then rewritten L page_url (fst s) name attrs attrs' else attrs' = attrs"
  let ?P = "\<lambda>tag name attrs. name = tag \<and> fetched L page_url name attrs"
  let ?m = "\<lambda>s :: string list \<times> archiver. length (fst s)"
  obtain soup1 s1 where p1: "map_tags_list (rewrite_img L page_url) soup ([], st) = (soup1, s1)"
    by (cases "map_tags_list (rewrite_img L page_url) soup ([], st)")
  obtain soup2 s2 where p2: "map_tags_list (rewrite_link L page_url) soup1 s1 = (soup2, s2)"
    by (cases "map_tags_list (rewrite_link L page_url) soup1 s1")
  obtain soup3 s3 where p3: "map_tags_list (rewrite_script L page_url) soup2 s2 = (soup3, s3)"
    by (cases "map_tags_list (rewrite_script L page_url) soup2 s2")
  from assms p1 p2 p3 have out: "soup' = soup3" "s3 = (assets_used, st')"
    by (auto simp: rewrite_soup_def split: prod.splits)
  have mono: "\<And>tag s s' n a a'. ?R tag s n a a' \<Longrightarrow> ?le s s' \<Longrightarrow> ?R tag s' n a a'"
    by (auto intro: rewritten_mono split: if_splits)
  have r1: "tags_rel_list (?R ''img'' s1) soup soup1 \<and> ?le ([], st) s1"
    by (rule map_tags_rel(2) [OF p1, of "?R ''img''" ?le])
       (use rewrite_img_step mono in \<open>blast+\<close>)
  have r2: "tags_rel_list (?R ''link'' s2) soup1 soup2 \<and> ?le s1 s2"
    by (rule map_tags_rel(2) [OF p2, of "?R ''link''" ?le])
       (use rewrite_link_step mono in \<open>blast+\<close>)
  have r3: "tags_rel_list (?R ''script'' s3) soup2 soup3 \<and> ?le s2 s3"
    by (rule map_tags_rel(2) [OF p3, of "?R ''script''" ?le])
       (use rewrite_script_step mono in \<open>blast+\<close>)
  have l13: "?le s1 s3" and l23: "?le s2 s3" using r2 r3 by auto
  have q1: "tags_rel_list (?R ''img'' s3) soup soup1"
    by (rule tags_rel_mono(2) [OF conjunct1 [OF r1]]) (rule mono [OF _ l13])
  have q2: "tags_rel_list (?R ''link'' s3) soup1 soup2"
    by (rule tags_rel_mono(2) [OF conjunct1 [OF r2]]) (rule mono [OF _ l23])
  have q3: "tags_rel_list (?R ''script'' s3) soup2 soup3"
    using r3 by simp
  have rel: "tags_rel_list (rewritten L page_url (fst s3)) soup soup3"
    by (rule tags_rel_mono(2) [OF tags_rel_comp(2) [OF tags_rel_comp(2) [OF q1 q2] q3]])
       (blast intro: rewritten_compose)
  have c1: "?m s1 = ?m ([], st) + count_tags_list (?P ''img'') soup"
    by (rule map_tags_count(2) [OF p1, of ?m "?P ''img''"]) (use rewrite_img_step in blast)
  have c2: "?m s2 = ?m s1 + count_tags_list (?P ''link'') soup1"
    by (rule map_tags_count(2) [OF p2, of ?m "?P ''link''"]) (use rewrite_link_step in blast)
  have c3: "?m s3 = ?m s2 + count_tags_list (?P ''script'') soup2"
    by (rule map_tags_count(2) [OF p3, of ?m "?P ''script''"]) (use rewrite_script_step in blast)
  have e2: "count_tags_list (?P ''link'') soup1 = count_tags_list (?P ''link'') soup"
    by (rule count_tags_rel(2) [OF conjunct1 [OF r1]]) (auto split: if_splits)
  have e3: "count_tags_list (?P ''script'') soup2 = count_tags_list (?P ''script'') soup"
  proof -
    have "count_tags_list (?P ''script'') soup2 = count_tags_list (?P ''script'') soup1"
      by (rule count_tags_rel(2) [OF conjunct1 [OF r2]]) (auto split: if_splits)
    also have "\<dots> = count_tags_list (?P ''script'') soup"
      by (rule count_tags_rel(2) [OF conjunct1 [OF r1]]) (auto split: if_splits)
    finally show ?thesis .
  qed
  have split: "count_tags_list (fetched L page_url) soup
      = count_tags_list (?P ''img'') soup + count_tags_list (?P ''link'') soup
        + count_tags_list (?P ''script'') soup"
    by (rule count_tags_split(2)) (use fetched_names in auto)
  from c1 c2 c3 e2 e3 split have "?m s3 = count_tags_list (fetched L page_url) soup" by simp
  with rel out show ?thesis by simp
qed


text \<open>
  C9: \<^verbatim>\<open>_rewrite_html\<close> returns for every page, and its result is the serialised tree
  in which every element is as \<open>rewritten\<close> says: an element whose asset could not be
  fetched has the attributes it had, its reference included; an element whose asset was
  fetched refers to one of the paths of \<^verbatim>\<open>assets_used\<close>, wherever it stands among the
  elements that failed. \<^verbatim>\<open>assets_used\<close> has one entry for every element whose asset
  was fetched, and none for the others.
\<close>

theorem failed_asset_is_skipped:
  assumes "rewrite_html L html page_url st = (out, assets_used, st')"
  shows "(\<exists>soup'. out = soup_str soup'
            \<and> tags_rel_list (rewritten L page_url assets_used) (html_parser L html) soup')
       \<and> length assets_used = count_tags_list (fetched L page_url) (html_parser L html)
       \<and> (asset_ref name attrs = Some (key, ref) \<and> get_content L (urljoin L page_url ref) = None
            \<and> rewritten L page_url assets_used name attrs attrs'
            \<longrightarrow> attrs' = attrs \<and> \<not> fetched L page_url name attrs)"
proof -
  obtain soup' where r: "rewrite_soup L page_url (html_parser L html) st = (soup', assets_used, st')"
    and o: "out = soup_str soup'"
    using assms by (auto simp: rewrite_html_def split: prod.splits)
  from rewrite_soup_rel [OF r] o
  have "(\<exists>soup'. out = soup_str soup'
            \<and> tags_rel_list (rewritten L page_url assets_used) (html_parser L html) soup')
       \<and> length assets_used = count_tags_list (fetched L page_url) (html_parser L html)"
    by blast
  moreover have "asset_ref name attrs = Some (key, ref) \<and> get_content L (urljoin L page_url ref) = None
            \<and> rewritten L page_url assets_used name attrs attrs'
            \<longrightarrow> attrs' = attrs \<and> \<not> fetched L page_url name attrs"
    by (auto simp: rewritten_def fetched_def)
  ultimately show ?thesis by blast
qed

theorem failed_asset_is_skipped_witness:
  "fst (rewrite_html one_asset ''<img src=\"/a.png\"><p>text</p><img src=\"/b.png\">''
          ''https://example.com/'' empty_archiver)
     = ''<img src=\"/a.png\"/><p>text</p><img src=\"../../assets/images/PNG.png\"/>''
   \<and> fst (snd (rewrite_html one_asset ''<img src=\"/a.png\"><p>text</p><img src=\"/b.png\">''
          ''https://example.com/'' empty_archiver))
     = [''assets/images/PNG.png'']
   \<and> asset_ref ''img'' [(''src'', ''/a.png'')] = Some (''src'', ''/a.png'')
   \<and> get_content one_asset (urljoin one_asset ''https://example.com/'' ''/a.png'') = None
   \<and> count_tags_list (fetched one_asset ''https://example.com/'')
         (html_parser one_asset ''<img src=\"/a.png\"><p>text</p><img src=\"/b.png\">'') = 1"
proof -
  let ?r = "rewrite_html one_asset ''<img src=\"/a.png\"><p>text</p><img src=\"/b.png\">''
          ''https://example.com/'' empty_archiver"
  have a: "fst ?r = ''<img src=\"/a.png\"/><p>text</p><img src=\"../../assets/images/PNG.png\"/>''"
    by code_simp
  have b: "fst (snd ?r) = [''assets/images/PNG.png'']"
    by code_simp
  have c: "asset_ref ''img'' [(''src'', ''/a.png'')] = Some (''src'', ''/a.png'')"
    by (simp add: asset_ref_def attr_get_def)
  have d: "get_content one_asset (urljoin one_asset ''https://example.com/'' ''/a.png'') = None"
    by code_simp
  have "?r = (fst ?r, fst (snd ?r), snd (snd ?r))" by simp
  from failed_asset_is_skipped [OF this] b
  have "count_tags_list (fetched one_asset ''https://example.com/'')
         (html_parser one_asset ''<img src=\"/a.png\"><p>text</p><img src=\"/b.png\">'') = 1"
    by simp
  with a b c d show ?thesis by blast
qed

section \<open>Properties of the substitutions on the text\<close>

lemma escape_xml_plain:
  "CHR ''&'' \<notin> set s \<Longrightarrow> CHR ''<'' \<notin> set s \<Longrightarrow> CHR ''>'' \<notin> set s \<Longrightarrow> escape_xml s = s"
  by (induction s) auto

lemma normalize_plain_text:
  assumes "html_parser L s = [Text s]"
    and "CHR ''&'' \<notin> set s" and "CHR ''<'' \<notin> set s" and "CHR ''>'' \<notin> set s"
  shows "normalize_html_for_comparison L s = normalize_text s"
  using assms
  by (simp add: normalize_html_for_comparison_def strip_tracking_soup_def soup_str_def
      escape_xml_plain)

lemma re_sub_no_start:
  assumes "\<And>t. m t \<noteq> None \<Longrightarrow> t \<noteq> [] \<and> P (hd t)" and "\<forall>c \<in> set s. \<not> P c"
  shows "re_sub m r s = s"
  using assms(2)
proof (induction s)
  case Nil
  then show ?case by simp
next
  case (Cons c cs)
  then have "\<not> P (hd (c # cs))" by simp
  with assms(1) [of "c # cs"] have "m (c # cs) = None" by blast
  with Cons show ?case by simp
qed

lemma lit_run_close_start:
  "lit_run_close (q # rest) cls close t \<noteq> None \<Longrightarrow> t \<noteq> [] \<and> hd t = q"
  by (cases t) (auto simp: lit_run_close_def Let_def startswith_def split: if_splits)

lemma lit_run_close_set:
  "lit_run_close lit cls close t \<noteq> None \<Longrightarrow> set lit \<subseteq> set t"
  using startswith_set [of t lit]
  by (auto simp: lit_run_close_def Let_def split: if_splits)

lemma re_sub_close_no_char:
  "x \<in> set lit \<Longrightarrow> x \<notin> set s \<Longrightarrow> re_sub (lit_run_close lit cls close) r s = s"
proof (induction s)
  case Nil
  then show ?case by simp
next
  case (Cons c cs)
  then have "lit_run_close lit cls close (c # cs) = None"
    using lit_run_close_set [of lit cls close "c # cs"] by blast
  with Cons show ?case by simp
qed

lemma time_match_start: "time_match t \<noteq> None \<Longrightarrow> t \<noteq> [] \<and> is_digit (hd t)"
  by (cases t) (auto simp: time_match_def Let_def split: if_splits)

lemma fb_pixel_match_start: "fb_pixel_match t \<noteq> None \<Longrightarrow> t \<noteq> [] \<and> hd t = CHR ''<''"
  by (cases t) (auto simp: fb_pixel_match_def Let_def startswith_def split: if_splits)











































lemma normalize_text_plain:
  assumes "\<forall>c \<in> set y. c \<noteq> CHR ''<'' \<and> c \<noteq> CHR ''{'' \<and> c \<noteq> CHR 0x27 \<and> \<not> is_digit c"
    and "normalize_ws y = y"
  shows "normalize_text y = y"
proof -
  have brace: "CHR ''{'' \<notin> set y" and quote: "CHR 0x27 \<notin> set y" using assms(1) by auto
  have p1: "\<And>r. re_sub (lit_run_close ''window.__CF$cv$params={'' (\<lambda>c. c \<noteq> CHR ''}'') CHR ''}'') r y = y"
    by (rule re_sub_close_no_char [OF _ brace]) simp
  have p2: "\<And>r. re_sub (lit_run_close (''r:'' @ [CHR 0x27]) is_hex (CHR 0x27)) r y = y"
    by (rule re_sub_close_no_char [OF _ quote]) simp
  have p3: "\<And>r. re_sub (lit_run_close (''t:'' @ [CHR 0x27]) is_b64 (CHR 0x27)) r y = y"
    by (rule re_sub_close_no_char [OF _ quote]) simp
  have p4: "\<And>r. re_sub time_match r y = y"
    by (rule re_sub_no_start [where P = is_digit]) (use time_match_start assms(1) in auto)
  have p5: "\<And>r. re_sub fb_pixel_match r y = y"
    by (rule re_sub_no_start [where P = "\<lambda>c. c = CHR ''<''"])
       (use fb_pixel_match_start assms(1) in auto)
  show ?thesis
    unfolding normalize_text_def Let_def p1 p2 p3 p4 p5 by (rule assms(2))
qed

section \<open>Idempotence of the normaliser\<close>

lemma re_sub_no_match:
  "(\<And>i. m (drop i s) = None) \<Longrightarrow> re_sub m r s = s"
proof (induction s)
  case Nil
  then show ?case by simp
next
  case (Cons c cs)
  from Cons.prems [of 0] have "m (c # cs) = None" by simp
  moreover have "\<And>i. m (drop i cs) = None"
    using Cons.prems [of "Suc i" for i] by simp
  ultimately show ?case using Cons.IH by simp
qed

lemma take_drop_take:
  assumes "take (length f) (drop j (take k s)) = f"
  shows "take (length f) (drop j s) = f"
proof -
  have e: "take (length f) (drop j (take k s)) = take (min (length f) (k - j)) (drop j s)"
    by (simp add: drop_take)
  from assms have "length (take (length f) (drop j (take k s))) = length f" by simp
  with e have "min (min (length f) (k - j)) (length (drop j s)) = length f" by simp
  then have "min (length f) (k - j) = length f" by linarith
  with e assms show ?thesis by simp
qed

lemma contains_at:
  assumes "take (length f) (drop m s) = f" and "f \<noteq> []"
  shows "contains f s"
proof -
  have "m < Suc (length s)"
  proof (rule ccontr)
    assume "\<not> m < Suc (length s)"
    then have "drop m s = []" by simp
    with assms show False by simp
  qed
  then have "m \<in> set [0 ..< Suc (length s)]" by (simp only: set_upt atLeastLessThan_iff) simp
  moreover have "startswith (drop m s) f"
    using assms(1) by (simp add: startswith_def)
  ultimately show ?thesis
    unfolding contains_def by (rule bexI [rotated])
qed









section \<open>What the tracking-parameter pass does to a value\<close>

lemma lit_run_Some_iff:
  "lit_run k cls s \<noteq> None
     \<longleftrightarrow> startswith s k \<and> (case drop (length k) s of [] \<Rightarrow> False | c # cs \<Rightarrow> cls c)"
  by (auto simp: lit_run_def Let_def split: list.splits)

lemma lit_run_pos: "k \<noteq> [] \<Longrightarrow> lit_run k cls s \<noteq> Some 0"
  by (auto simp: lit_run_def Let_def)

lemma lit_run_after:
  assumes "lit_run k cls (c # cs) = Some (Suc n)"
  shows "drop n cs = [] \<or> \<not> cls (hd (drop n cs))"
proof -
  let ?rest = "drop (length k) (c # cs)"
  from assms have n: "Suc n = length k + length (takeWhile cls ?rest)"
    by (auto simp: lit_run_def Let_def split: if_splits)
  have "drop n cs = drop (Suc n) (c # cs)" by simp
  also have "\<dots> = drop (length (takeWhile cls ?rest)) ?rest"
    unfolding n by (simp add: add.commute)
  also have "\<dots> = dropWhile cls ?rest"
    by (simp add: dropWhile_eq_drop)
  finally have "drop n cs = dropWhile cls ?rest" .
  then show ?thesis
    using hd_dropWhile [of cls ?rest] by auto
qed

lemma lit_run_stop:
  assumes "x = [] \<or> \<not> cls (hd x)" and "k \<noteq> []" and "\<forall>c \<in> set k. cls c"
  shows "lit_run k cls x = None"
proof (cases x)
  case Nil
  with assms(2) show ?thesis by (simp add: lit_run_def startswith_def)
next
  case (Cons d rest)
  with assms(1) have d: "\<not> cls d" by simp
  have "\<not> startswith (d # rest) k"
  proof
    assume "startswith (d # rest) k"
    then have "take (length k) (d # rest) = k" by (simp add: startswith_def)
    with assms(2) have "hd k = d" by (cases k) auto
    with assms(2,3) d show False by (cases k) auto
  qed
  with Cons show ?thesis by (simp add: lit_run_def Let_def)
qed

lemma re_sub_stop:
  assumes "x = [] \<or> \<not> cls (hd x)" and "k \<noteq> []" and "\<forall>c \<in> set k. cls c"
  shows "re_sub (lit_run k cls) r x = [] \<or> \<not> cls (hd (re_sub (lit_run k cls) r x))"
proof (cases x)
  case Nil
  then show ?thesis by simp
next
  case (Cons d rest)
  from lit_run_stop [OF assms] Cons have "lit_run k cls (d # rest) = None" by simp
  with Cons assms(1) show ?thesis by simp
qed

lemma lit_run_indep:
  assumes m: "lit_run k cls (p @ x) \<noteq> None"
    and x: "x = [] \<or> \<not> cls (hd x)"
    and k: "\<forall>c \<in> set k. cls c"
  shows "lit_run k cls (p @ y) \<noteq> None"
proof -
  from m [unfolded lit_run_Some_iff]
  have sw: "take (length k) (p @ x) = k"
    and run: "case drop (length k) (p @ x) of [] \<Rightarrow> False | c # cs \<Rightarrow> cls c"
    by (simp_all add: startswith_def)
  have long: "length k < length p"
  proof (rule ccontr)
    assume "\<not> length k < length p"
    then have le: "length p \<le> length k" by simp
    show False
    proof (cases "length p = length k")
      case True
      with run have "case x of [] \<Rightarrow> False | c # cs \<Rightarrow> cls c" by simp
      with x show False by (cases x) auto
    next
      case False
      with le have lt: "length p < length k" by simp
      from sw lt have e: "p @ take (length k - length p) x = k" by simp
      show False
      proof (cases x)
        case Nil
        with e lt show False by auto
      next
        case (Cons d rest)
        from lt obtain j where "length k - length p = Suc j"
          by (cases "length k - length p") auto
        with e Cons have "k = p @ d # take j rest" by simp
        then have "d \<in> set k" by simp
        with k have "cls d" by blast
        with x Cons show False by simp
      qed
    qed
  qed
  then have sw': "take (length k) (p @ y) = k" using sw by simp
  from long obtain c cs where d: "drop (length k) p = c # cs"
    by (cases "drop (length k) p") auto
  with run long have "cls c" by simp
  with d long have "case drop (length k) (p @ y) of [] \<Rightarrow> False | c # cs \<Rightarrow> cls c" by simp
  with sw' show ?thesis unfolding lit_run_Some_iff startswith_def by (rule conjI)
qed


lemma re_sub_transfer:
  assumes k: "\<forall>c \<in> set k. cls c" and k': "\<forall>c \<in> set k'. cls c" and ne: "k' \<noteq> []"
  shows "lit_run k cls (p @ re_sub (lit_run k' cls) [] s) \<noteq> None \<Longrightarrow> lit_run k cls (p @ s) \<noteq> None"
proof (induction "length s" arbitrary: s p rule: less_induct)
  case less
  show ?case
  proof (cases s)
    case Nil
    with less.prems show ?thesis by simp
  next
    case (Cons c cs)
    show ?thesis
    proof (cases "lit_run k' cls (c # cs)")
      case None
      with less.prems Cons have "lit_run k cls ((p @ [c]) @ re_sub (lit_run k' cls) [] cs) \<noteq> None"
        by simp
      then have "lit_run k cls ((p @ [c]) @ cs) \<noteq> None"
        by (rule less.hyps [rotated]) (simp add: Cons)
      with Cons show ?thesis by simp
    next
      case (Some l)
      with lit_run_pos [OF ne, of cls "c # cs"] obtain n where l: "l = Suc n"
        by (cases l) auto
      let ?out = "re_sub (lit_run k' cls) [] (drop n cs)"
      from Some l have m: "lit_run k' cls (c # cs) = Some (Suc n)" by simp
      have a: "?out = [] \<or> \<not> cls (hd ?out)"
        by (rule re_sub_stop [OF lit_run_after [OF m] ne k'])
      from less.prems Cons m have b: "lit_run k cls (p @ ?out) \<noteq> None" by simp
      show ?thesis by (rule lit_run_indep [OF b a k])
    qed
  qed
qed

lemma re_sub_suffix:
  "\<exists>j. drop i (re_sub m [] s) = re_sub m [] (drop j s)"
proof (induction "length s" arbitrary: s i rule: less_induct)
  case less
  show ?case
  proof (cases s)
    case Nil
    then show ?thesis by simp
  next
    case (Cons c cs)
    show ?thesis
    proof (cases "\<exists>n. m (c # cs) = Some (Suc n)")
      case True
      then obtain n where n: "m (c # cs) = Some (Suc n)" by blast
      have "length (drop n cs) < length s" using Cons by simp
      from less.hyps [OF this, of i] obtain j
        where "drop i (re_sub m [] (drop n cs)) = re_sub m [] (drop j (drop n cs))" by blast
      then have "drop i (re_sub m [] s) = re_sub m [] (drop (Suc (j + n)) s)"
        using Cons n by simp
      then show ?thesis by blast
    next
      case False
      then have e: "re_sub m [] (c # cs) = c # re_sub m [] cs"
        by (cases "m (c # cs)") (auto split: nat.splits)
      show ?thesis
      proof (cases i)
        case 0
        then have "drop i (re_sub m [] s) = re_sub m [] (drop 0 s)" by simp
        then show ?thesis by blast
      next
        case (Suc i')
        have "length cs < length s" using Cons by simp
        from less.hyps [OF this, of i'] obtain j
          where "drop i' (re_sub m [] cs) = re_sub m [] (drop j cs)" by blast
        then have "drop i (re_sub m [] s) = re_sub m [] (drop (Suc j) s)"
          using Cons e Suc by simp
        then show ?thesis by blast
      qed
    qed
  qed
qed

lemma no_match_kept:
  assumes k: "\<forall>c \<in> set k. cls c" and k': "\<forall>c \<in> set k'. cls c" and ne: "k' \<noteq> []"
    and nm: "\<And>i. lit_run k cls (drop i s) = None"
  shows "lit_run k cls (drop i (re_sub (lit_run k' cls) [] s)) = None"
proof (rule ccontr)
  assume a: "lit_run k cls (drop i (re_sub (lit_run k' cls) [] s)) \<noteq> None"
  obtain j where "drop i (re_sub (lit_run k' cls) [] s) = re_sub (lit_run k' cls) [] (drop j s)"
    using re_sub_suffix by blast
  with a have "lit_run k cls ([] @ re_sub (lit_run k' cls) [] (drop j s)) \<noteq> None" by simp
  then have "lit_run k cls ([] @ drop j s) \<noteq> None"
    by (rule re_sub_transfer [OF k k' ne])
  with nm [of j] show False by simp
qed

lemma no_match_after:
  assumes k: "\<forall>c \<in> set k. cls c" and ne: "k \<noteq> []"
  shows "lit_run k cls (drop i (re_sub (lit_run k cls) [] s)) = None"
proof -
  obtain j where j: "drop i (re_sub (lit_run k cls) [] s) = re_sub (lit_run k cls) [] (drop j s)"
    using re_sub_suffix by blast
  have "lit_run k cls (re_sub (lit_run k cls) [] t) = None" for t
  proof (cases t)
    case Nil
    with ne show ?thesis by (simp add: lit_run_def startswith_def)
  next
    case (Cons c cs)
    show ?thesis
    proof (cases "lit_run k cls (c # cs)")
      case None
      show ?thesis
      proof (rule ccontr)
        assume "lit_run k cls (re_sub (lit_run k cls) [] t) \<noteq> None"
        with None Cons have "lit_run k cls ([c] @ re_sub (lit_run k cls) [] cs) \<noteq> None" by simp
        then have "lit_run k cls ([c] @ cs) \<noteq> None"
          by (rule re_sub_transfer [OF k k ne])
        with None show False by simp
      qed
    next
      case (Some l)
      with lit_run_pos [OF ne, of cls "c # cs"] obtain n where l: "l = Suc n"
        by (cases l) auto
      from Some l have m: "lit_run k cls (c # cs) = Some (Suc n)" by simp
      have "lit_run k cls (re_sub (lit_run k cls) [] (drop n cs)) = None"
        by (rule lit_run_stop [OF re_sub_stop [OF lit_run_after [OF m] ne k] ne k])
      with Cons m show ?thesis by simp
    qed
  qed
  with j show ?thesis by simp
qed


lemma strip_tracking_foldl:
  "strip_tracking v = foldl (\<lambda>s k. re_sub (lit_run k url_char) [] s) v tracking_keys"
  by (simp add: strip_tracking_def tracking_keys_def)

lemma tracking_key_chars:
  assumes "k \<in> set tracking_keys"
  shows "k \<noteq> []" and "\<forall>c \<in> set k. url_char c" and "length k = 5"
    and "hd k = CHR ''?'' \<or> hd k = CHR ''&''"
    and "\<forall>c \<in> set (tl k). c \<noteq> CHR ''?'' \<and> c \<noteq> CHR ''&''"
  using assms by (auto simp: tracking_keys_def url_char_def is_space_def)

lemma has_tracking_param_iff:
  "has_tracking_param v
     \<longleftrightarrow> (\<exists>i. \<exists>k \<in> set tracking_keys. lit_run k url_char (drop i v) \<noteq> None)"
proof
  assume "has_tracking_param v"
  then obtain i k where "k \<in> set tracking_keys" and "startswith (drop i v) k"
    and "case drop (i + length k) v of [] \<Rightarrow> False | c # cs \<Rightarrow> url_char c"
    unfolding has_tracking_param_def by blast
  then have "k \<in> set tracking_keys \<and> lit_run k url_char (drop i v) \<noteq> None"
    unfolding lit_run_Some_iff by (simp add: add.commute)
  then show "\<exists>i. \<exists>k \<in> set tracking_keys. lit_run k url_char (drop i v) \<noteq> None" by blast
next
  assume "\<exists>i. \<exists>k \<in> set tracking_keys. lit_run k url_char (drop i v) \<noteq> None"
  then obtain i k where k: "k \<in> set tracking_keys" and m: "lit_run k url_char (drop i v) \<noteq> None"
    by blast
  from m [unfolded lit_run_Some_iff] have sw: "startswith (drop i v) k"
    and run: "case drop (i + length k) v of [] \<Rightarrow> False | c # cs \<Rightarrow> url_char c"
    by (simp_all add: add.commute)
  have "i < length v"
  proof (rule ccontr)
    assume "\<not> i < length v"
    then have "drop i v = []" by simp
    with sw tracking_key_chars(1) [OF k] show False by (simp add: startswith_def)
  qed
  then have "i \<in> set [0 ..< length v]" by simp
  with k sw run show "has_tracking_param v"
    unfolding has_tracking_param_def by blast
qed

lemma foldl_no_match:
  assumes "set ks \<subseteq> set tracking_keys" and "k \<in> set ks"
  shows "lit_run k url_char (drop i (foldl (\<lambda>s k. re_sub (lit_run k url_char) [] s) v ks)) = None"
  using assms
proof (induction ks arbitrary: i rule: rev_induct)
  case Nil
  then show ?case by simp
next
  case (snoc k' ks)
  from snoc.prems have k': "k' \<in> set tracking_keys" by simp
  have k: "k \<in> set tracking_keys" using snoc.prems by auto
  show ?case
  proof (cases "k = k'")
    case True
    then show ?thesis
      using no_match_after [OF tracking_key_chars(2) [OF k] tracking_key_chars(1) [OF k]]
      by simp
  next
    case False
    with snoc.prems have "k \<in> set ks" by simp
    with snoc.IH snoc.prems(1)
    have "\<And>i. lit_run k url_char (drop i (foldl (\<lambda>s k. re_sub (lit_run k url_char) [] s) v ks)) = None"
      by simp
    from no_match_kept [OF tracking_key_chars(2) [OF k] tracking_key_chars(2) [OF k']
        tracking_key_chars(1) [OF k'] this]
    show ?thesis by simp
  qed
qed

lemma strip_tracking_no_param: "\<not> has_tracking_param (strip_tracking v)"
proof
  assume "has_tracking_param (strip_tracking v)"
  then obtain i k where k: "k \<in> set tracking_keys"
    and m: "lit_run k url_char (drop i (strip_tracking v)) \<noteq> None"
    unfolding has_tracking_param_iff by blast
  have "lit_run k url_char (drop i (strip_tracking v)) = None"
    unfolding strip_tracking_foldl by (rule foldl_no_match [OF subset_refl k])
  with m show False by simp
qed

lemma foldl_unchanged:
  "(\<And>i k. k \<in> set ks \<Longrightarrow> lit_run k url_char (drop i v) = None)
     \<Longrightarrow> foldl (\<lambda>s k. re_sub (lit_run k url_char) [] s) v ks = v"
proof (induction ks)
  case Nil
  then show ?case by simp
next
  case (Cons k ks)
  have "re_sub (lit_run k url_char) [] v = v"
    by (rule re_sub_no_match) (simp add: Cons.prems)
  with Cons show ?case by simp
qed

lemma strip_tracking_unchanged: "\<not> has_tracking_param v \<Longrightarrow> strip_tracking v = v"
  unfolding has_tracking_param_iff strip_tracking_foldl
  by (rule foldl_unchanged) blast


lemma re_sub_skip:
  "(\<And>i. i < length u \<Longrightarrow> m (drop i (u @ w)) = None) \<Longrightarrow> re_sub m r (u @ w) = u @ re_sub m r w"
proof (induction u)
  case Nil
  then show ?case by simp
next
  case (Cons a u)
  from Cons.prems [of 0] have "m (a # u @ w) = None" by simp
  moreover have "\<And>i. i < length u \<Longrightarrow> m (drop i (u @ w)) = None"
    using Cons.prems [of "Suc i" for i] by simp
  ultimately show ?case using Cons.IH by simp
qed

lemma key_not_in_prefix:
  assumes k: "k \<in> set tracking_keys" and u: "\<not> contains k u"
    and w: "w = [] \<or> hd w = CHR ''?'' \<or> hd w = CHR ''&''" and i: "i < length u"
  shows "lit_run k cls (drop i (u @ w)) = None"
proof -
  have "\<not> startswith (drop i (u @ w)) k"
  proof
    assume "startswith (drop i (u @ w)) k"
    with i have sw: "take 5 (drop i u @ w) = k"
      by (simp add: startswith_def tracking_key_chars(3) [OF k])
    show False
    proof (cases "5 \<le> length (drop i u)")
      case True
      with sw have "take (length k) (drop i u) = k"
        by (simp add: tracking_key_chars(3) [OF k])
      then have "contains k u"
        by (rule contains_at) (rule tracking_key_chars(1) [OF k])
      with u show False by simp
    next
      case False
      then have e: "k = drop i u @ take (5 - length (drop i u)) w"
        using sw by simp
      obtain a u' where a: "drop i u = a # u'" using i by (cases "drop i u") auto
      show False
      proof (cases w)
        case Nil
        with e have "length k = length (drop i u)" by simp
        with False show False by (simp add: tracking_key_chars(3) [OF k])
      next
        case (Cons d rest)
        from False obtain j where "5 - length (drop i u) = Suc j"
          by (cases "5 - length (drop i u)") auto
        with e a Cons have "tl k = u' @ d # take j rest" by simp
        then have "d \<in> set (tl k)" by simp
        with tracking_key_chars(5) [OF k] w Cons show False by auto
      qed
    qed
  qed
  then show ?thesis by (simp add: lit_run_def Let_def)
qed

lemma re_sub_in_run:
  assumes "\<forall>c \<in> set v. cls c" and "k \<noteq> []"
  shows "\<exists>j. re_sub (lit_run k cls) [] v = take j v \<and> (v \<noteq> [] \<and> \<not> startswith v k \<longrightarrow> 0 < j)"
  using assms(1)
proof (induction v)
  case Nil
  then show ?case by simp
next
  case (Cons c cs)
  show ?case
  proof (cases "lit_run k cls (c # cs)")
    case None
    from Cons obtain j where "re_sub (lit_run k cls) [] cs = take j cs" by auto
    with None have "re_sub (lit_run k cls) [] (c # cs) = take (Suc j) (c # cs)" by simp
    then show ?thesis by blast
  next
    case (Some l)
    with lit_run_pos [OF assms(2), of cls "c # cs"] obtain n where l: "l = Suc n"
      by (cases l) auto
    have tw: "takeWhile cls (drop (length k) (c # cs)) = drop (length k) (c # cs)"
      using Cons.prems by (metis in_set_dropD takeWhile_eq_all_conv)
    from Some l have sw: "startswith (c # cs) k"
      and n: "Suc n = length k + length (takeWhile cls (drop (length k) (c # cs)))"
      by (auto simp: lit_run_def Let_def split: if_splits)
    from sw have "length (take (length k) (c # cs)) = length k" by (simp add: startswith_def)
    then have "length k \<le> length (c # cs)" by simp
    with n tw have "Suc n = length (c # cs)" by simp
    then have "drop n cs = []" by simp
    with Some l have "re_sub (lit_run k cls) [] (c # cs) = take 0 (c # cs)" by simp
    with sw show ?thesis by blast
  qed
qed

lemma foldl_before:
  assumes "set ks \<subseteq> set tracking_keys" and k: "k \<in> set tracking_keys" and "k \<notin> set ks"
    and u: "\<forall>k' \<in> set tracking_keys. \<not> contains k' u"
    and "v \<noteq> []" and "\<forall>c \<in> set v. url_char c" and "\<forall>k' \<in> set ks. \<not> startswith v k'"
  shows "\<exists>j. 0 < j \<and> foldl (\<lambda>s k. re_sub (lit_run k url_char) [] s) (u @ k @ v) ks = u @ k @ take j v"
  using assms(1,3,5,6,7)
proof (induction ks arbitrary: v)
  case Nil
  then have "0 < length v \<and> u @ k @ v = u @ k @ take (length v) v" by simp
  then show ?case by auto
next
  case (Cons k' ks)
  from Cons.prems have k': "k' \<in> set tracking_keys" and ne: "k \<noteq> k'" by auto
  have p1: "re_sub (lit_run k' url_char) [] (u @ k @ v) = u @ re_sub (lit_run k' url_char) [] (k @ v)"
  proof (rule re_sub_skip)
    fix i assume "i < length u"
    with u k' show "lit_run k' url_char (drop i (u @ k @ v)) = None"
      using tracking_key_chars(1,4) [OF k]
      by (intro key_not_in_prefix) (auto simp: hd_append)
  qed
  have p2: "re_sub (lit_run k' url_char) [] (k @ v) = k @ re_sub (lit_run k' url_char) [] v"
  proof (rule re_sub_skip)
    fix i assume i: "i < length k"
    have "\<not> startswith (drop i (k @ v)) k'"
    proof
      assume sw: "startswith (drop i (k @ v)) k'"
      show False
      proof (cases i)
        case 0
        with sw have "take 5 (k @ v) = k'"
          by (simp add: startswith_def tracking_key_chars(3) [OF k'])
        then have "k = k'" by (simp add: tracking_key_chars(3) [OF k])
        with ne show False by simp
      next
        case (Suc i')
        from i obtain a t where d: "drop i k = a # t" by (cases "drop i k") auto
        have "a \<in> set (tl k)"
          using d Suc by (metis drop_Suc in_set_dropD list.set_intros(1))
        with tracking_key_chars(5) [OF k] have a: "a \<noteq> CHR ''?'' \<and> a \<noteq> CHR ''&''" by blast
        from sw d i have "take (length k') (a # t @ v) = k'" by (simp add: startswith_def)
        with tracking_key_chars(1) [OF k'] have "hd k' = a" by (cases k') auto
        with a tracking_key_chars(4) [OF k'] show False by auto
      qed
    qed
    then show "lit_run k' url_char (drop i (k @ v)) = None" by (simp add: lit_run_def Let_def)
  qed
  from re_sub_in_run [OF Cons.prems(4) tracking_key_chars(1) [OF k']] Cons.prems(3,5)
  obtain j where j: "re_sub (lit_run k' url_char) [] v = take j v" and pos: "0 < j" by auto
  have "\<exists>j'. 0 < j' \<and> foldl (\<lambda>s k. re_sub (lit_run k url_char) [] s) (u @ k @ take j v) ks
      = u @ k @ take j' (take j v)"
  proof (rule Cons.IH)
    show "set ks \<subseteq> set tracking_keys" using Cons.prems(1) by simp
    show "k \<notin> set ks" using Cons.prems(2) by simp
    show "take j v \<noteq> []" using pos Cons.prems(3) by simp
    show "\<forall>c \<in> set (take j v). url_char c" using Cons.prems(4) by (meson in_set_takeD)
    show "\<forall>k' \<in> set ks. \<not> startswith (take j v) k'"
    proof
      fix k'' assume "k'' \<in> set ks"
      with Cons.prems(5) have n: "\<not> startswith v k''" by simp
      show "\<not> startswith (take j v) k''"
      proof
        assume "startswith (take j v) k''"
        then have "take (length k'') (drop 0 (take j v)) = k''" by (simp add: startswith_def)
        then have "take (length k'') (drop 0 v) = k''" by (rule take_drop_take)
        with n show False by (simp add: startswith_def)
      qed
    qed
  qed
  then obtain j' where "0 < j'"
    and "foldl (\<lambda>s k. re_sub (lit_run k url_char) [] s) (u @ k @ take j v) ks = u @ k @ take (min j' j) v"
    by auto
  with pos p1 p2 j have "0 < min j' j
      \<and> foldl (\<lambda>s k. re_sub (lit_run k url_char) [] s) (u @ k @ v) (k' # ks) = u @ k @ take (min j' j) v"
    by simp
  then show ?case by blast
qed

lemma foldl_after:
  assumes "set ks \<subseteq> set tracking_keys" and u: "\<forall>k' \<in> set tracking_keys. \<not> contains k' u"
  shows "foldl (\<lambda>s k. re_sub (lit_run k url_char) [] s) u ks = u"
proof (rule foldl_unchanged)
  fix i k assume "k \<in> set ks"
  with assms(1) have k: "k \<in> set tracking_keys" by auto
  show "lit_run k url_char (drop i u) = None"
  proof (cases "i < length u")
    case True
    from key_not_in_prefix [OF k _ _ True, of "[]" url_char] u k show ?thesis by simp
  next
    case False
    with tracking_key_chars(1) [OF k] show ?thesis by (simp add: lit_run_def startswith_def)
  qed
qed

lemma strip_tracking_value:
  assumes k: "k \<in> set tracking_keys"
    and u: "\<forall>k' \<in> set tracking_keys. \<not> contains k' u"
    and v: "v \<noteq> []" "\<forall>c \<in> set v. url_char c" "\<forall>k' \<in> set tracking_keys. \<not> startswith v k'"
  shows "strip_tracking (u @ k @ v) = u"
proof -
  let ?f = "\<lambda>s k. re_sub (lit_run k url_char) [] s"
  have step: "foldl ?f (u @ k @ v) (before @ k # after) = u"
    if b: "set before \<subseteq> set tracking_keys" "k \<notin> set before"
      and a: "set after \<subseteq> set tracking_keys" for before after
  proof -
    from foldl_before [OF b(1) k b(2) u v(1,2)] v(3) b(1)
    obtain j where pos: "0 < j" and e: "foldl ?f (u @ k @ v) before = u @ k @ take j v" by blast
    have "re_sub (lit_run k url_char) [] (u @ k @ take j v)
        = u @ re_sub (lit_run k url_char) [] (k @ take j v)"
    proof (rule re_sub_skip)
      fix i assume "i < length u"
      with u k show "lit_run k url_char (drop i (u @ k @ take j v)) = None"
        using tracking_key_chars(1,4) [OF k]
        by (intro key_not_in_prefix) (auto simp: hd_append)
    qed
    moreover have "re_sub (lit_run k url_char) [] (k @ take j v) = []"
    proof -
      obtain q rest where q: "k = q # rest" using tracking_key_chars(1) [OF k] by (cases k) auto
      have "take j v \<noteq> []" using pos v(1) by simp
      moreover have "\<forall>c \<in> set (take j v). url_char c" using v(2) by (meson in_set_takeD)
      ultimately show ?thesis unfolding q by (rule re_sub_whole)
    qed
    ultimately have "foldl ?f (u @ k @ v) (before @ [k]) = u" using e by simp
    then have "foldl ?f (u @ k @ v) (before @ k # after) = foldl ?f u after"
      by (metis append.assoc append_Cons append_Nil foldl_append)
    with foldl_after [OF a u] show ?thesis by simp
  qed
  from k consider "k = ''?_gl=''" | "k = ''&_gl=''" | "k = ''?_ga=''" | "k = ''&_ga=''"
    by (auto simp: tracking_keys_def)
  then show ?thesis
  proof cases
    case 1
    with step [of "[]" "[''&_gl='', ''?_ga='', ''&_ga='']"] show ?thesis
      by (simp add: strip_tracking_foldl tracking_keys_def)
  next
    case 2
    with step [of "[''?_gl='']" "[''?_ga='', ''&_ga='']"] show ?thesis
      by (simp add: strip_tracking_foldl tracking_keys_def)
  next
    case 3
    with step [of "[''?_gl='', ''&_gl='']" "[''&_ga='']"] show ?thesis
      by (simp add: strip_tracking_foldl tracking_keys_def)
  next
    case 4
    with step [of "[''?_gl='', ''&_gl='', ''?_ga='']" "[]"] show ?thesis
      by (simp add: strip_tracking_foldl tracking_keys_def)
  qed
qed


text \<open>
  C7, amended: the normaliser passes the \<^verbatim>\<open>href\<close> of every \<^verbatim>\<open>a\<close>, \<^verbatim>\<open>link\<close>,
  \<^verbatim>\<open>script\<close> and \<^verbatim>\<open>img\<close> element and the \<^verbatim>\<open>src\<close> of every \<^verbatim>\<open>img\<close> and \<^verbatim>\<open>script\<close>
  element through \<open>strip_tracking\<close> and leaves everything else in the tree as it is
  (\<open>tracking_stripped\<close>). The value that \<open>strip_tracking\<close> returns holds no parameter
  \<^verbatim>\<open>_gl\<close> or \<^verbatim>\<open>_ga\<close> with a value, whether joined by \<^verbatim>\<open>?\<close> or by \<^verbatim>\<open>&\<close>; a value that
  holds none is returned as it is; and a value \<open>u @ k @ v\<close>, where \<open>k\<close> is one of
  \<^verbatim>\<open>?_gl=\<close>, \<^verbatim>\<open>&_gl=\<close>, \<^verbatim>\<open>?_ga=\<close>, \<^verbatim>\<open>&_ga=\<close>, none of the four occurs in \<open>u\<close>, and \<open>v\<close>
  is not empty, has no quote, \<^verbatim>\<open>>\<close> or whitespace and does not itself begin with one of
  the four, becomes \<open>u\<close>: the parameter goes with all that follows it up to the next
  quote, \<^verbatim>\<open>>\<close> or whitespace.
\<close>

theorem tracking_stripped_on_listed_tags:
  "tags_rel_list tracking_stripped soup (strip_tracking_soup soup)
   \<and> \<not> has_tracking_param (strip_tracking h)
   \<and> (\<not> has_tracking_param h \<longrightarrow> strip_tracking h = h)
   \<and> (k \<in> set tracking_keys
        \<and> (\<forall>k' \<in> set tracking_keys. \<not> contains k' u \<and> \<not> startswith v k')
        \<and> v \<noteq> [] \<and> (\<forall>c \<in> set v. url_char c)
      \<longrightarrow> strip_tracking (u @ k @ v) = u)"
  using strip_tracking_soup_rel [of soup] strip_tracking_no_param [of h]
    strip_tracking_unchanged [of h] strip_tracking_value [of k u v]
  by blast

theorem tracking_stripped_on_listed_tags_witness:
  "tags_rel_list tracking_stripped
      [Element ''a'' [(''href'', ''/my_page?id=1&_gl=1*abc*_ga*MTIz'')] [Text ''x'']]
      (strip_tracking_soup [Element ''a'' [(''href'', ''/my_page?id=1&_gl=1*abc*_ga*MTIz'')] [Text ''x'']])
   \<and> \<not> has_tracking_param (strip_tracking ''/a?_gl=1 /b?x=2&_ga=3'')
   \<and> \<not> has_tracking_param ''/p?id=1&_gl=''
   \<and> strip_tracking ''/p?id=1&_gl='' = ''/p?id=1&_gl=''
   \<and> strip_tracking (''/my_page'' @ ''?_gl='' @ ''abc&id=1'') = ''/my_page''"
proof -
  have a: "\<not> has_tracking_param ''/p?id=1&_gl=''" by code_simp
  have b: "''?_gl='' \<in> set tracking_keys" by code_simp
  have c: "\<forall>k' \<in> set tracking_keys. \<not> contains k' ''/my_page'' \<and> \<not> startswith ''abc&id=1'' k'"
    by code_simp
  have d: "\<forall>c \<in> set ''abc&id=1''. url_char c" by code_simp
  from tracking_stripped_on_listed_tags
      [of "[Element ''a'' [(''href'', ''/my_page?id=1&_gl=1*abc*_ga*MTIz'')] [Text ''x'']]"
          "''/a?_gl=1 /b?x=2&_ga=3''" "''?_gl=''" "''/my_page''" "''abc&id=1''"]
    tracking_stripped_on_listed_tags [of "[]" "''/p?id=1&_gl=''" "''?_gl=''" "''/my_page''" "''abc&id=1''"]
    a b c d
  show ?thesis by simp
qed

section \<open>Pages that differ in noise\<close>






end
